theory Spec2Isabelle
  imports Main "HOL-Library.Word" "HOL-Library.Char_ord" "HOL-Library.List_Lexorder"
begin

section \<open>AposaJson: the value model\<close>

text \<open>
  A shallow embedding of \<^verbatim>\<open>include/AposaJson/AposaJson.hpp\<close>. The C++ types are read on
  an LP64 platform: \<^verbatim>\<open>int\<close> and \<^verbatim>\<open>unsigned int\<close> are 32 bits wide, \<^verbatim>\<open>short\<close> 16 bits,
  \<^verbatim>\<open>long\<close>, \<^verbatim>\<open>long long\<close>, \<^verbatim>\<open>int64_t\<close> and \<^verbatim>\<open>uint64_t\<close> 64 bits. A \<^verbatim>\<open>double\<close> and a
  \<^verbatim>\<open>float\<close> are carried as their 64 and 32 bit patterns; nothing is computed on them.
\<close>

datatype JsonValueType = Null | Boolean | Number | String | Array | Object

text \<open>\<^verbatim>\<open>enum class JsonNumberType\<close>; the enumerators carry the prefix \<open>Num_\<close> here, since
  \<^verbatim>\<open>String\<close> is an enumerator of both enums.\<close>

datatype JsonNumberType =
  Num_Int | Num_Uint | Num_Int64 | Num_Uint64 | Num_Double | Num_Float | Num_Int16 | Num_String

text \<open>
  What a run of the C++ code can do other than return a value:
  \<^item> \<open>ReadPastEnd i\<close>: the cursor is dereferenced at index \<open>i\<close>, which is not an index of
    the text (\<open>i\<close> is at least its length). The C++ code has undefined behaviour there; it
    is not a result that the code reports.
  \<^item> \<open>IndeterminateValue\<close>: a member that no constructor or setter has written is read.
  \<^item> \<open>invalid_argument\<close>, \<open>out_of_range\<close>: the exceptions of \<^verbatim>\<open>std::stoi\<close> and its
    siblings, which no function of the library catches.
\<close>

datatype fault = ReadPastEnd nat | IndeterminateValue | invalid_argument | out_of_range

text \<open>The anonymous union of \<^verbatim>\<open>JsonValue\<close>: the member written last, or \<open>no_value\<close> when
  none has been written.\<close>

datatype number_union =
  no_value
  | int_value "32 word"
  | uint_value "32 word"
  | int64t_value "64 word"
  | uint64t_value "64 word"
  | double_value "64 word"
  | float_value "32 word"
  | int16_value "16 word"

text \<open>
  \<^verbatim>\<open>class JsonValue\<close>, one field per data member in the order of declaration. The members
  \<^verbatim>\<open>_number_type\<close> and \<^verbatim>\<open>_boolean\<close> are written by no constructor: \<open>None\<close> is their
  indeterminate state. The member map \<^verbatim>\<open>_object\<close> is the list of its entries in the order
  in which the container iterates over them, every key at most once.
\<close>

datatype JsonValue = JsonValue
  (GetType: JsonValueType)
  (number_type: "JsonNumberType option")
  (num_union: number_union)
  (GetNumberString: string)
  (boolean: "bool option")
  (GetString: string)
  (GetArray: "JsonValue list")
  (GetObject: "(string \<times> JsonValue) list")

text \<open>\<^verbatim>\<open>class JsonDocument\<close>: the member map \<^verbatim>\<open>_map\<close>.\<close>

datatype JsonDocument = JsonDocument (GetMember: "(string \<times> JsonValue) list")

text \<open>The constructors \<^verbatim>\<open>JsonValue()\<close> and \<^verbatim>\<open>JsonValue(JsonValueType type)\<close>.\<close>

definition JsonValue_of_type :: "JsonValueType \<Rightarrow> JsonValue" where
  "JsonValue_of_type t = JsonValue t None no_value [] None [] [] []"

definition JsonValue_default :: JsonValue where
  "JsonValue_default = JsonValue_of_type Null"

subsection \<open>The member map\<close>

text \<open>
  \<^verbatim>\<open>_object[key] = value\<close> on the \<^verbatim>\<open>std::map\<close> backend (\<^verbatim>\<open>APOSA_JSON_USE_STDMAP\<close>): the
  entries are kept in ascending order of their keys, which \<^verbatim>\<open>std::string\<close> compares byte by
  byte. A key that is present keeps its place and gets the new value; this much is the same
  on the \<^verbatim>\<open>std::unordered_map\<close> backend, where only the place of a new key is unspecified.
\<close>

fun map_assign :: "string \<Rightarrow> 'v \<Rightarrow> (string \<times> 'v) list \<Rightarrow> (string \<times> 'v) list" where
  "map_assign key v [] = [(key, v)]"
| "map_assign key v ((k, w) # m) =
     (if key = k then (k, v) # m
      else if key < k then (key, v) # (k, w) # m
      else (k, w) # map_assign key v m)"

subsection \<open>Setters\<close>

fun SetBoolean :: "bool \<Rightarrow> JsonValue \<Rightarrow> JsonValue" where
  "SetBoolean v (JsonValue t nt u ns b s arr obj) = JsonValue Boolean nt u ns (Some v) s arr obj"

fun SetNumberString :: "string \<Rightarrow> JsonValue \<Rightarrow> JsonValue" where
  "SetNumberString v (JsonValue t nt u ns b s arr obj) =
     JsonValue t (Some Num_String) u v b s arr obj"

fun SetInt :: "32 word \<Rightarrow> JsonValue \<Rightarrow> JsonValue" where
  "SetInt v (JsonValue t nt u ns b s arr obj) =
     JsonValue Number (Some Num_Int) (int_value v) ns b s arr obj"

fun SetUint :: "32 word \<Rightarrow> JsonValue \<Rightarrow> JsonValue" where
  "SetUint v (JsonValue t nt u ns b s arr obj) =
     JsonValue Number (Some Num_Uint) (uint_value v) ns b s arr obj"

fun SetInt64 :: "64 word \<Rightarrow> JsonValue \<Rightarrow> JsonValue" where
  "SetInt64 v (JsonValue t nt u ns b s arr obj) =
     JsonValue Number (Some Num_Int64) (int64t_value v) ns b s arr obj"

fun SetUint64 :: "64 word \<Rightarrow> JsonValue \<Rightarrow> JsonValue" where
  "SetUint64 v (JsonValue t nt u ns b s arr obj) =
     JsonValue Number (Some Num_Uint64) (uint64t_value v) ns b s arr obj"

fun SetDouble :: "64 word \<Rightarrow> JsonValue \<Rightarrow> JsonValue" where
  "SetDouble v (JsonValue t nt u ns b s arr obj) =
     JsonValue Number (Some Num_Double) (double_value v) ns b s arr obj"

fun SetFloat :: "32 word \<Rightarrow> JsonValue \<Rightarrow> JsonValue" where
  "SetFloat v (JsonValue t nt u ns b s arr obj) =
     JsonValue Number (Some Num_Float) (float_value v) ns b s arr obj"

fun SetInt16 :: "16 word \<Rightarrow> JsonValue \<Rightarrow> JsonValue" where
  "SetInt16 v (JsonValue t nt u ns b s arr obj) =
     JsonValue Number (Some Num_Int16) (int16_value v) ns b s arr obj"

fun SetString :: "string \<Rightarrow> JsonValue \<Rightarrow> JsonValue" where
  "SetString v (JsonValue t nt u ns b s arr obj) = JsonValue String nt u ns b v arr obj"

fun AddElement :: "JsonValue \<Rightarrow> JsonValue \<Rightarrow> JsonValue" where
  "AddElement v (JsonValue t nt u ns b s arr obj) = JsonValue Array nt u ns b s (arr @ [v]) obj"

fun AddMember :: "string \<Rightarrow> JsonValue \<Rightarrow> JsonValue \<Rightarrow> JsonValue" where
  "AddMember key v (JsonValue t nt u ns b s arr obj) =
     JsonValue Object nt u ns b s arr (map_assign key v obj)"

text \<open>\<^verbatim>\<open>JsonDocument::AddMember\<close>.\<close>

fun doc_AddMember :: "string \<Rightarrow> JsonValue \<Rightarrow> JsonDocument \<Rightarrow> JsonDocument" where
  "doc_AddMember key v (JsonDocument m) = JsonDocument (map_assign key v m)"

subsection \<open>The conversions of the C++ library\<close>

text \<open>\<^verbatim>\<open>isspace\<close> in the C locale: space, and the control characters 9 to 13.\<close>

definition isspace :: "char \<Rightarrow> bool" where
  "isspace c = (c = CHR '' '' \<or> ((9::int) \<le> of_char c \<and> (of_char c :: int) \<le> 13))"

definition isdigit :: "char \<Rightarrow> bool" where
  "isdigit c = ((48::int) \<le> of_char c \<and> (of_char c :: int) \<le> 57)"

definition digit_val :: "char \<Rightarrow> int" where
  "digit_val c = of_char c - 48"

text \<open>
  The scan of \<^verbatim>\<open>strtol\<close> and its siblings in base 10: white space is skipped, one sign is
  taken, then the longest run of digits; what follows the digits is ignored. \<open>None\<close> when
  there is no digit, otherwise whether the sign was \<^verbatim>\<open>-\<close> and the magnitude.
\<close>

definition scan_decimal :: "string \<Rightarrow> (bool \<times> int) option" where
  "scan_decimal s =
     (let s1 = dropWhile isspace s;
          neg = (case s1 of [] \<Rightarrow> False | c # _ \<Rightarrow> c = CHR ''-'');
          s2 = (case s1 of [] \<Rightarrow> [] | c # r \<Rightarrow> if c = CHR ''-'' \<or> c = CHR ''+'' then r else s1);
          ds = takeWhile isdigit s2
      in if ds = [] then None else Some (neg, foldl (\<lambda>a c. 10 * a + digit_val c) 0 ds))"

text \<open>\<^verbatim>\<open>std::stoi\<close>: \<^verbatim>\<open>strtol\<close>, then the check against the range of \<^verbatim>\<open>int\<close>.\<close>

definition stoi :: "string \<Rightarrow> fault + 32 word" where
  "stoi s =
     (case scan_decimal s of
        None \<Rightarrow> Inl invalid_argument
      | Some (neg, m) \<Rightarrow>
          (let v = (if neg then - m else m)
           in if v < - (2 ^ 63) \<or> 2 ^ 63 \<le> v then Inl out_of_range
              else if v < - (2 ^ 31) \<or> 2 ^ 31 \<le> v then Inl out_of_range
              else Inr (word_of_int v)))"

text \<open>\<^verbatim>\<open>std::stoll\<close> (and \<^verbatim>\<open>std::stol\<close>): the range is that of a signed 64 bit integer.\<close>

definition stoll :: "string \<Rightarrow> fault + 64 word" where
  "stoll s =
     (case scan_decimal s of
        None \<Rightarrow> Inl invalid_argument
      | Some (neg, m) \<Rightarrow>
          (let v = (if neg then - m else m)
           in if v < - (2 ^ 63) \<or> 2 ^ 63 \<le> v then Inl out_of_range
              else Inr (word_of_int v)))"

text \<open>\<^verbatim>\<open>std::stoul\<close> and \<^verbatim>\<open>std::stoull\<close>: the magnitude has to fit 64 bits, and a minus
  sign negates it in unsigned arithmetic.\<close>

definition stoull :: "string \<Rightarrow> fault + 64 word" where
  "stoull s =
     (case scan_decimal s of
        None \<Rightarrow> Inl invalid_argument
      | Some (neg, m) \<Rightarrow>
          if 2 ^ 64 \<le> m then Inl out_of_range
          else Inr (if neg then - word_of_int m else word_of_int m))"

definition stoul :: "string \<Rightarrow> fault + 64 word" where
  "stoul s = stoull s"

subsection \<open>Getters\<close>

definition GetNumberType :: "JsonValue \<Rightarrow> fault + JsonNumberType" where
  "GetNumberType v = (case number_type v of None \<Rightarrow> Inl IndeterminateValue | Some t \<Rightarrow> Inr t)"

definition GetBoolean :: "JsonValue \<Rightarrow> fault + bool" where
  "GetBoolean v = (case boolean v of None \<Rightarrow> Inl IndeterminateValue | Some b \<Rightarrow> Inr b)"

text \<open>
  Each numeric getter tests \<^verbatim>\<open>_number_type == JsonNumberType::String\<close> and converts the
  stored text when it holds; otherwise it reads its member of the union, which is
  indeterminate unless that member was the one written last. The result of the conversion is
  converted once more, implicitly, to the getter's return type: \<^verbatim>\<open>GetUint\<close> narrows the
  \<^verbatim>\<open>unsigned long\<close> of \<^verbatim>\<open>std::stoul\<close> to \<^verbatim>\<open>unsigned int\<close>, and \<^verbatim>\<open>GetInt16\<close> narrows the
  \<^verbatim>\<open>int\<close> of \<^verbatim>\<open>std::stoi\<close> to \<^verbatim>\<open>short\<close>; both keep the low bits.
\<close>

definition GetInt :: "JsonValue \<Rightarrow> fault + 32 word" where
  "GetInt v =
     (case number_type v of
        None \<Rightarrow> Inl IndeterminateValue
      | Some nt \<Rightarrow>
          if nt = Num_String then stoi (GetNumberString v)
          else (case num_union v of int_value x \<Rightarrow> Inr x | _ \<Rightarrow> Inl IndeterminateValue))"

definition GetUint :: "JsonValue \<Rightarrow> fault + 32 word" where
  "GetUint v =
     (case number_type v of
        None \<Rightarrow> Inl IndeterminateValue
      | Some nt \<Rightarrow>
          if nt = Num_String
          then (case stoul (GetNumberString v) of Inl e \<Rightarrow> Inl e | Inr x \<Rightarrow> Inr (ucast x))
          else (case num_union v of uint_value x \<Rightarrow> Inr x | _ \<Rightarrow> Inl IndeterminateValue))"

definition GetInt64 :: "JsonValue \<Rightarrow> fault + 64 word" where
  "GetInt64 v =
     (case number_type v of
        None \<Rightarrow> Inl IndeterminateValue
      | Some nt \<Rightarrow>
          if nt = Num_String then stoll (GetNumberString v)
          else (case num_union v of int64t_value x \<Rightarrow> Inr x | _ \<Rightarrow> Inl IndeterminateValue))"

definition GetUint64 :: "JsonValue \<Rightarrow> fault + 64 word" where
  "GetUint64 v =
     (case number_type v of
        None \<Rightarrow> Inl IndeterminateValue
      | Some nt \<Rightarrow>
          if nt = Num_String then stoull (GetNumberString v)
          else (case num_union v of uint64t_value x \<Rightarrow> Inr x | _ \<Rightarrow> Inl IndeterminateValue))"

definition GetInt16 :: "JsonValue \<Rightarrow> fault + 16 word" where
  "GetInt16 v =
     (case number_type v of
        None \<Rightarrow> Inl IndeterminateValue
      | Some nt \<Rightarrow>
          if nt = Num_String
          then (case stoi (GetNumberString v) of Inl e \<Rightarrow> Inl e | Inr x \<Rightarrow> Inr (ucast x))
          else (case num_union v of int16_value x \<Rightarrow> Inr x | _ \<Rightarrow> Inl IndeterminateValue))"

text \<open>
  \<^verbatim>\<open>std::stod\<close>, \<^verbatim>\<open>std::stof\<close> and the two floating point overloads of
  \<^verbatim>\<open>std::to_string\<close> are parameters of the model.
\<close>

record libcxx =
  stod :: "string \<Rightarrow> fault + 64 word"
  stof :: "string \<Rightarrow> fault + 32 word"
  to_string_double :: "64 word \<Rightarrow> string"
  to_string_float :: "32 word \<Rightarrow> string"

definition GetDouble :: "libcxx \<Rightarrow> JsonValue \<Rightarrow> fault + 64 word" where
  "GetDouble L v =
     (case number_type v of
        None \<Rightarrow> Inl IndeterminateValue
      | Some nt \<Rightarrow>
          if nt = Num_String then stod L (GetNumberString v)
          else (case num_union v of double_value x \<Rightarrow> Inr x | _ \<Rightarrow> Inl IndeterminateValue))"

definition GetFloat :: "libcxx \<Rightarrow> JsonValue \<Rightarrow> fault + 32 word" where
  "GetFloat L v =
     (case number_type v of
        None \<Rightarrow> Inl IndeterminateValue
      | Some nt \<Rightarrow>
          if nt = Num_String then stof L (GetNumberString v)
          else (case num_union v of float_value x \<Rightarrow> Inr x | _ \<Rightarrow> Inl IndeterminateValue))"

section \<open>The parser\<close>

text \<open>
  \<^verbatim>\<open>class JsonParser\<close> keeps two iterators into the text, \<^verbatim>\<open>_it\<close> and \<^verbatim>\<open>_it_end\<close>. They are
  indices here: the text \<open>s\<close> and \<open>it_end\<close> are arguments, and a function that moves \<^verbatim>\<open>_it\<close>
  takes the index \<open>it\<close> and returns the new one beside its result. Moving the cursor is
  plain arithmetic, as in the machine code; only \<^verbatim>\<open>*_it\<close> looks at the text, and it is
  defined on the indices below the length of the text. (Where an implementation keeps a null
  character at \<^verbatim>\<open>end()\<close>, every loop of the parser that reads it there moves on to the
  next index: it is no quote, comma, brace, bracket or digit.)
\<close>

definition deref :: "string \<Rightarrow> nat \<Rightarrow> fault + char" where
  "deref s it = (if it < length s then Inr (s ! it) else Inl (ReadPastEnd it))"

text \<open>The loop of \<^verbatim>\<open>ParseString\<close>: \<^verbatim>\<open>while (*_it != '\"') { cache += *_it; _it++; }\<close>.\<close>

function ParseString_loop :: "string \<Rightarrow> nat \<Rightarrow> string \<Rightarrow> fault + string \<times> nat" where
  "ParseString_loop s it cache =
     (if it < length s
      then (if s ! it \<noteq> CHR 0x22 then ParseString_loop s (it + 1) (cache @ [s ! it])
            else Inr (cache, it))
      else Inl (ReadPastEnd it))"
  by pat_completeness auto
termination
  by (relation "measure (\<lambda>(s, it, cache). length s - it)") auto

declare ParseString_loop.simps [simp del]

definition ParseString :: "string \<Rightarrow> nat \<Rightarrow> fault + string \<times> nat" where
  "ParseString s it =
     (case ParseString_loop s (it + 1) [] of
        Inl e \<Rightarrow> Inl e
      | Inr (cache, it') \<Rightarrow> Inr (cache, it' + 1))"

definition ParseNull :: "nat \<Rightarrow> nat" where
  "ParseNull it = it + 4"

definition ParseBoolean :: "string \<Rightarrow> nat \<Rightarrow> fault + bool \<times> nat" where
  "ParseBoolean s it =
     (case deref s it of
        Inl e \<Rightarrow> Inl e
      | Inr c \<Rightarrow> if c = CHR ''t'' then Inr (True, it + 4) else Inr (False, it + 5))"

text \<open>
  The loop of \<^verbatim>\<open>ParseNumber\<close>:
  \<^verbatim>\<open>while (*_it != ',' || (_it == _it_end) == true) { if (*_it == '}') break; cache += *_it; _it++; }\<close>
\<close>

function ParseNumber_loop :: "string \<Rightarrow> nat \<Rightarrow> nat \<Rightarrow> string \<Rightarrow> fault + string \<times> nat" where
  "ParseNumber_loop s it_end it cache =
     (if it < length s
      then (if s ! it \<noteq> CHR '','' \<or> it = it_end
            then (if s ! it = CHR ''}'' then Inr (cache, it)
                  else ParseNumber_loop s it_end (it + 1) (cache @ [s ! it]))
            else Inr (cache, it))
      else Inl (ReadPastEnd it))"
  by pat_completeness auto
termination
  by (relation "measure (\<lambda>(s, it_end, it, cache). length s - it)") auto

declare ParseNumber_loop.simps [simp del]

text \<open>\<^verbatim>\<open>cache.erase(std::remove_if(cache.begin(), cache.end(), isspace), cache.end())\<close> keeps
  the characters that are not white space, in their order.\<close>

definition ParseNumber :: "string \<Rightarrow> nat \<Rightarrow> nat \<Rightarrow> fault + string \<times> nat" where
  "ParseNumber s it_end it =
     (case ParseNumber_loop s it_end it [] of
        Inl e \<Rightarrow> Inl e
      | Inr (cache, it') \<Rightarrow> Inr (filter (\<lambda>c. \<not> isspace c) cache, it'))"

text \<open>The ten \<^verbatim>\<open>case\<close> labels \<^verbatim>\<open>'1'\<close> to \<^verbatim>\<open>'9'\<close> and \<^verbatim>\<open>'0'\<close> of the two dispatching switches.\<close>

definition digit_case :: "char \<Rightarrow> bool" where
  "digit_case c = (c \<in> set ''1234567890'')"

text \<open>
  \<^verbatim>\<open>ParseValue\<close>, \<^verbatim>\<open>ParseArray\<close> and \<^verbatim>\<open>ParseObject\<close> call each other, and the loop of
  \<^verbatim>\<open>ParseArray\<close> runs forever when \<^verbatim>\<open>ParseValue\<close> returns without moving the cursor. The
  functions take fuel: entering a function or a loop iteration costs one unit, and \<open>None\<close>
  is a run that has not ended when the fuel is spent. The \<^verbatim>\<open>for\<close> loop of \<^verbatim>\<open>ParseValue\<close>
  and the \<^verbatim>\<open>while\<close> loops of \<^verbatim>\<open>ParseArray\<close> and \<^verbatim>\<open>ParseObject\<close> are the functions
  \<open>ParseValue\<close>, \<open>ParseArray_loop\<close> and \<open>ParseObject_loop\<close>.
\<close>

function (sequential) ParseValue :: "nat \<Rightarrow> string \<Rightarrow> nat \<Rightarrow> nat \<Rightarrow> (fault + JsonValue \<times> nat) option"
  and ParseArray :: "nat \<Rightarrow> string \<Rightarrow> nat \<Rightarrow> nat \<Rightarrow> (fault + JsonValue \<times> nat) option"
  and ParseArray_loop ::
    "nat \<Rightarrow> string \<Rightarrow> nat \<Rightarrow> nat \<Rightarrow> JsonValue \<Rightarrow> (fault + JsonValue \<times> nat) option"
  and ParseObject :: "nat \<Rightarrow> string \<Rightarrow> nat \<Rightarrow> nat \<Rightarrow> (fault + JsonValue \<times> nat) option"
  and ParseObject_loop ::
    "nat \<Rightarrow> string \<Rightarrow> nat \<Rightarrow> nat \<Rightarrow> JsonValue \<Rightarrow> (fault + JsonValue \<times> nat) option"
where
  "ParseValue 0 s it_end it = None"
| "ParseValue (Suc n) s it_end it =
     (if it = it_end then Some (Inr (JsonValue_default, it))
      else
        (case deref s it of
           Inl e \<Rightarrow> Some (Inl e)
         | Inr c \<Rightarrow>
             if c = CHR ''n'' then Some (Inr (JsonValue_of_type Null, it))
             else if c = CHR ''t'' \<or> c = CHR ''f'' then
               (case ParseBoolean s it of
                  Inl e \<Rightarrow> Some (Inl e)
                | Inr (b, it') \<Rightarrow> Some (Inr (SetBoolean b JsonValue_default, it')))
             else if c = CHR 0x22 then
               (case ParseString s it of
                  Inl e \<Rightarrow> Some (Inl e)
                | Inr (str, it') \<Rightarrow> Some (Inr (SetString str JsonValue_default, it')))
             else if c = CHR ''['' then ParseArray n s it_end it
             else if c = CHR ''{'' then ParseObject n s it_end it
             else if digit_case c then
               (case ParseNumber s it_end it of
                  Inl e \<Rightarrow> Some (Inl e)
                | Inr (num, it') \<Rightarrow>
                    Some (Inr (SetNumberString num (JsonValue_of_type Number), it')))
             else ParseValue n s it_end (it + 1)))"
| "ParseArray 0 s it_end it = None"
| "ParseArray (Suc n) s it_end it = ParseArray_loop n s it_end (it + 1) (JsonValue_of_type Array)"
| "ParseArray_loop 0 s it_end it val = None"
| "ParseArray_loop (Suc n) s it_end it val =
     (case deref s it of
        Inl e \<Rightarrow> Some (Inl e)
      | Inr c \<Rightarrow>
          if c \<noteq> CHR '']'' then
            (if c = CHR '','' \<or> c = CHR '' '' \<or> c = CHR 0x0A
             then ParseArray_loop n s it_end (it + 1) val
             else
               (case ParseValue n s it_end it of
                  None \<Rightarrow> None
                | Some (Inl e) \<Rightarrow> Some (Inl e)
                | Some (Inr (v, it')) \<Rightarrow> ParseArray_loop n s it_end it' (AddElement v val)))
          else Some (Inr (val, it)))"
| "ParseObject 0 s it_end it = None"
| "ParseObject (Suc n) s it_end it =
     (case ParseObject_loop n s it_end (it + 1) (JsonValue_of_type Object) of
        None \<Rightarrow> None
      | Some (Inl e) \<Rightarrow> Some (Inl e)
      | Some (Inr (refValue, it')) \<Rightarrow> Some (Inr (refValue, it' + 1)))"
| "ParseObject_loop 0 s it_end it refValue = None"
| "ParseObject_loop (Suc n) s it_end it refValue =
     (case deref s it of
        Inl e \<Rightarrow> Some (Inl e)
      | Inr c \<Rightarrow>
          if c \<noteq> CHR ''}'' then
            (if c = CHR '','' \<or> c = CHR '' '' \<or> c = CHR 0x0A
             then ParseObject_loop n s it_end (it + 1) refValue
             else
               (case ParseString s it of
                  Inl e \<Rightarrow> Some (Inl e)
                | Inr (key, it1) \<Rightarrow>
                    (case ParseValue n s it_end it1 of
                       None \<Rightarrow> None
                     | Some (Inl e) \<Rightarrow> Some (Inl e)
                     | Some (Inr (v, it2)) \<Rightarrow>
                         ParseObject_loop n s it_end it2 (AddMember key v refValue))))
          else Some (Inr (refValue, it)))"
  by pat_completeness auto
termination
  by (relation "measure (\<lambda>x. case x of
        Inl (Inl (n, _)) \<Rightarrow> n
      | Inl (Inr (n, _)) \<Rightarrow> n
      | Inr (Inl (n, _)) \<Rightarrow> n
      | Inr (Inr (Inl (n, _))) \<Rightarrow> n
      | Inr (Inr (Inr (n, _))) \<Rightarrow> n)") simp_all

text \<open>
  The \<^verbatim>\<open>for (; _it != _it_end; ++_it)\<close> loop of \<^verbatim>\<open>ParseJson\<close> with its locals \<^verbatim>\<open>isKey\<close>,
  \<^verbatim>\<open>key_word\<close> and \<^verbatim>\<open>doc\<close>. The test \<^verbatim>\<open>_it != _it_end\<close> costs no fuel, an iteration one
  unit; \<^verbatim>\<open>++_it\<close> is the \<open>+ 1\<close> at each call of the loop for the next iteration.
\<close>

function (sequential) ParseJson_loop ::
  "nat \<Rightarrow> string \<Rightarrow> nat \<Rightarrow> nat \<Rightarrow> bool \<Rightarrow> string \<Rightarrow> JsonDocument \<Rightarrow> (fault + JsonDocument) option"
where
  "ParseJson_loop 0 s it_end it isKey key_word doc =
     (if it = it_end then Some (Inr doc) else None)"
| "ParseJson_loop (Suc n) s it_end it isKey key_word doc =
     (if it = it_end then Some (Inr doc)
      else
        (case deref s it of
           Inl e \<Rightarrow> Some (Inl e)
         | Inr c \<Rightarrow>
             if c = CHR ''n'' then
               ParseJson_loop n s it_end (it + 1) False key_word
                 (doc_AddMember key_word (JsonValue_of_type Null) doc)
             else if c = CHR ''t'' \<or> c = CHR ''f'' then
               (case ParseBoolean s it of
                  Inl e \<Rightarrow> Some (Inl e)
                | Inr (b, it') \<Rightarrow>
                    ParseJson_loop n s it_end (it' + 1) False key_word
                      (doc_AddMember key_word (SetBoolean b JsonValue_default) doc))
             else if c = CHR 0x22 then
               (if isKey = False then
                  (case ParseString s it of
                     Inl e \<Rightarrow> Some (Inl e)
                   | Inr (str, it') \<Rightarrow> ParseJson_loop n s it_end (it' + 1) True str doc)
                else
                  (case ParseString s it of
                     Inl e \<Rightarrow> Some (Inl e)
                   | Inr (str, it') \<Rightarrow>
                       ParseJson_loop n s it_end (it' + 1) False key_word
                         (doc_AddMember key_word (SetString str JsonValue_default) doc)))
             else if c = CHR ''['' then
               (case ParseArray n s it_end it of
                  None \<Rightarrow> None
                | Some (Inl e) \<Rightarrow> Some (Inl e)
                | Some (Inr (v, it')) \<Rightarrow>
                    ParseJson_loop n s it_end (it' + 1) False key_word
                      (doc_AddMember key_word v doc))
             else if c = CHR ''{'' then
               (case ParseObject n s it_end it of
                  None \<Rightarrow> None
                | Some (Inl e) \<Rightarrow> Some (Inl e)
                | Some (Inr (v, it')) \<Rightarrow>
                    ParseJson_loop n s it_end (it' + 1) False key_word
                      (doc_AddMember key_word v doc))
             else if digit_case c then
               (case ParseNumber s it_end it of
                  Inl e \<Rightarrow> Some (Inl e)
                | Inr (num, it') \<Rightarrow>
                    ParseJson_loop n s it_end (it' + 1) False key_word
                      (doc_AddMember key_word
                         (SetNumberString num (JsonValue_of_type Number)) doc))
             else ParseJson_loop n s it_end (it + 1) isKey key_word doc))"
  by pat_completeness auto
termination
  by (relation "measure (\<lambda>(n, _). n)") simp_all

text \<open>\<^verbatim>\<open>ParseJson\<close> on the cursor pair that \<^verbatim>\<open>Parse\<close> has set: \<^verbatim>\<open>_it++; _it_end--;\<close>, then the
  loop. \<^verbatim>\<open>Parse\<close> calls it with \<open>it_end\<close> the length of a text that is not empty.\<close>

definition ParseJson :: "nat \<Rightarrow> string \<Rightarrow> nat \<Rightarrow> nat \<Rightarrow> (fault + JsonDocument) option" where
  "ParseJson n s it it_end =
     (case deref s it of
        Inl e \<Rightarrow> Some (Inl e)
      | Inr c \<Rightarrow>
          if c = CHR ''{'' then ParseJson_loop n s (it_end - 1) (it + 1) False [] (JsonDocument [])
          else Some (Inr (JsonDocument [])))"

definition Parse :: "nat \<Rightarrow> string \<Rightarrow> (fault + JsonDocument) option" where
  "Parse n json_str =
     (if json_str = [] then Some (Inr (JsonDocument []))
      else ParseJson n json_str 0 (length json_str))"

section \<open>The serializer\<close>

text \<open>\<^verbatim>\<open>std::to_string\<close> on the integer types: the decimal digits, after a minus sign when the
  value is negative. \<open>decimal\<close> is called on values that are not negative.\<close>

function decimal :: "int \<Rightarrow> string" where
  "decimal n = (if n < 10 then [char_of (48 + n)] else decimal (n div 10) @ [char_of (48 + n mod 10)])"
  by pat_completeness auto
termination
  by (relation "measure nat") auto

declare decimal.simps [simp del]

definition to_string_int :: "int \<Rightarrow> string" where
  "to_string_int i = (if i < 0 then CHR ''-'' # decimal (- i) else decimal i)"

text \<open>
  The inner \<^verbatim>\<open>switch (item.GetNumberType())\<close>, which the source writes out three times with
  the same eight cases (in \<^verbatim>\<open>GenArray\<close>, \<^verbatim>\<open>GenObject\<close> and \<^verbatim>\<open>SerializeObject\<close>): the
  text that the case appends. \<^verbatim>\<open>short\<close> is promoted to \<^verbatim>\<open>int\<close> for \<^verbatim>\<open>std::to_string\<close>.
\<close>

definition number_text :: "libcxx \<Rightarrow> JsonValue \<Rightarrow> fault + string" where
  "number_text L item =
     (case GetNumberType item of
        Inl e \<Rightarrow> Inl e
      | Inr nt \<Rightarrow>
          (case nt of
             Num_Int \<Rightarrow>
               (case GetInt item of Inl e \<Rightarrow> Inl e | Inr x \<Rightarrow> Inr (to_string_int (sint x)))
           | Num_Uint \<Rightarrow>
               (case GetUint item of Inl e \<Rightarrow> Inl e | Inr x \<Rightarrow> Inr (to_string_int (uint x)))
           | Num_Int64 \<Rightarrow>
               (case GetInt64 item of Inl e \<Rightarrow> Inl e | Inr x \<Rightarrow> Inr (to_string_int (sint x)))
           | Num_Uint64 \<Rightarrow>
               (case GetUint64 item of Inl e \<Rightarrow> Inl e | Inr x \<Rightarrow> Inr (to_string_int (uint x)))
           | Num_Double \<Rightarrow>
               (case GetDouble L item of Inl e \<Rightarrow> Inl e | Inr x \<Rightarrow> Inr (to_string_double L x))
           | Num_Float \<Rightarrow>
               (case GetFloat L item of Inl e \<Rightarrow> Inl e | Inr x \<Rightarrow> Inr (to_string_float L x))
           | Num_Int16 \<Rightarrow>
               (case GetInt16 item of Inl e \<Rightarrow> Inl e | Inr x \<Rightarrow> Inr (to_string_int (sint x)))
           | Num_String \<Rightarrow> Inr (GetNumberString item)))"

text \<open>The serializer appends to a \<^verbatim>\<open>std::string&\<close>; here each function takes the text
  written so far and returns it extended.\<close>

definition GenKey :: "string \<Rightarrow> string \<Rightarrow> string" where
  "GenKey tmp_str key = tmp_str @ ([CHR 0x22] @ key @ [CHR 0x22, CHR '':''])"

text \<open>
  \<^verbatim>\<open>GenArray\<close> and \<^verbatim>\<open>GenObject\<close> with their range-based \<^verbatim>\<open>for\<close> loops. A loop takes the
  counter \<^verbatim>\<open>i\<close>, the size of the container and the elements that are still to come;
  \<^verbatim>\<open>if (++i < arr.size()) tmp_str += ","\<close> is the last step of an iteration. The counter is
  a natural number here; the \<^verbatim>\<open>int\<close> of the source overflows only in a container of 2 to
  the 31 elements or more, which is left out.
\<close>

function GenArray :: "libcxx \<Rightarrow> string \<Rightarrow> JsonValue \<Rightarrow> fault + string"
  and GenArray_loop :: "libcxx \<Rightarrow> string \<Rightarrow> nat \<Rightarrow> nat \<Rightarrow> JsonValue list \<Rightarrow> fault + string"
  and GenObject :: "libcxx \<Rightarrow> string \<Rightarrow> JsonValue \<Rightarrow> fault + string"
  and GenObject_loop ::
    "libcxx \<Rightarrow> string \<Rightarrow> nat \<Rightarrow> nat \<Rightarrow> (string \<times> JsonValue) list \<Rightarrow> fault + string"
where
  "GenArray L tmp_str (JsonValue t nt u ns b s arr obj) =
     (case GenArray_loop L (tmp_str @ ''['') 0 (length arr) arr of
        Inl e \<Rightarrow> Inl e
      | Inr r \<Rightarrow> Inr (r @ '']''))"
| "GenArray_loop L tmp_str i sz [] = Inr tmp_str"
| "GenArray_loop L tmp_str i sz (item # rest) =
     (case
        (case GetType item of
           Null \<Rightarrow> Inr (tmp_str @ ''null'')
         | Boolean \<Rightarrow>
             (case GetBoolean item of
                Inl e \<Rightarrow> Inl e
              | Inr v \<Rightarrow> Inr (tmp_str @ (if v then ''true'' else ''false'')))
         | Number \<Rightarrow>
             (case number_text L item of Inl e \<Rightarrow> Inl e | Inr txt \<Rightarrow> Inr (tmp_str @ txt))
         | String \<Rightarrow> Inr (tmp_str @ ([CHR 0x22] @ GetString item @ [CHR 0x22]))
         | Array \<Rightarrow> GenArray L tmp_str item
         | Object \<Rightarrow> GenObject L tmp_str item)
      of
        Inl e \<Rightarrow> Inl e
      | Inr r \<Rightarrow> GenArray_loop L (if i + 1 < sz then r @ '','' else r) (i + 1) sz rest)"
| "GenObject L tmp_str (JsonValue t nt u ns b s arr obj) =
     (case GenObject_loop L (tmp_str @ ''{'') 0 (length obj) obj of
        Inl e \<Rightarrow> Inl e
      | Inr r \<Rightarrow> Inr (r @ ''}''))"
| "GenObject_loop L tmp_str i sz [] = Inr tmp_str"
| "GenObject_loop L tmp_str i sz (member # rest) =
     (case
        (case GetType (snd member) of
           Null \<Rightarrow> Inr (GenKey tmp_str (fst member) @ ''null'')
         | Boolean \<Rightarrow>
             (case GetBoolean (snd member) of
                Inl e \<Rightarrow> Inl e
              | Inr v \<Rightarrow> Inr (GenKey tmp_str (fst member) @ (if v then ''true'' else ''false'')))
         | Number \<Rightarrow>
             (case number_text L (snd member) of
                Inl e \<Rightarrow> Inl e
              | Inr txt \<Rightarrow> Inr (GenKey tmp_str (fst member) @ txt))
         | String \<Rightarrow>
             Inr (GenKey tmp_str (fst member) @ ([CHR 0x22] @ GetString (snd member) @ [CHR 0x22]))
         | Array \<Rightarrow> GenArray L (GenKey tmp_str (fst member)) (snd member)
         | Object \<Rightarrow> GenObject L (GenKey tmp_str (fst member)) (snd member))
      of
        Inl e \<Rightarrow> Inl e
      | Inr r \<Rightarrow> GenObject_loop L (if i + 1 < sz then r @ '','' else r) (i + 1) sz rest)"
  by pat_completeness auto
termination
proof (relation "measure (\<lambda>x. case x of
        Inl (Inl (L, tmp_str, v)) \<Rightarrow> size v
      | Inl (Inr (L, tmp_str, i, sz, items)) \<Rightarrow> size_list size items
      | Inr (Inl (L, tmp_str, v)) \<Rightarrow> size v
      | Inr (Inr (L, tmp_str, i, sz, members)) \<Rightarrow> size_list (\<lambda>m. size (snd m)) members)",
    goal_cases)
  case (6 L tmp_str t nt u ns b s arr obj)
  have "size_list (\<lambda>m. size (snd m)) obj \<le> size_list (size_prod (\<lambda>_. 0) size) obj"
    by (rule size_list_pointwise) (auto simp: size_prod_simp)
  then show ?case by simp
qed simp_all

declare GenArray.simps [simp del] GenObject.simps [simp del]

text \<open>The loop of \<^verbatim>\<open>SerializeObject\<close> over the members of the document.\<close>

fun SerializeObject_loop ::
  "libcxx \<Rightarrow> string \<Rightarrow> nat \<Rightarrow> nat \<Rightarrow> (string \<times> JsonValue) list \<Rightarrow> fault + string"
where
  "SerializeObject_loop L tmp_result i sz [] = Inr tmp_result"
| "SerializeObject_loop L tmp_result i sz (member # rest) =
     (case
        (case GetType (snd member) of
           Null \<Rightarrow> Inr (GenKey tmp_result (fst member) @ ''null'')
         | Boolean \<Rightarrow>
             (case GetBoolean (snd member) of
                Inl e \<Rightarrow> Inl e
              | Inr v \<Rightarrow>
                  Inr (GenKey tmp_result (fst member) @ (if v then ''true'' else ''false'')))
         | Number \<Rightarrow>
             (case number_text L (snd member) of
                Inl e \<Rightarrow> Inl e
              | Inr txt \<Rightarrow> Inr (GenKey tmp_result (fst member) @ txt))
         | String \<Rightarrow>
             Inr (((GenKey tmp_result (fst member) @ [CHR 0x22]) @ GetString (snd member))
                  @ [CHR 0x22])
         | Array \<Rightarrow> GenArray L (GenKey tmp_result (fst member)) (snd member)
         | Object \<Rightarrow> GenObject L (GenKey tmp_result (fst member)) (snd member))
      of
        Inl e \<Rightarrow> Inl e
      | Inr r \<Rightarrow>
          SerializeObject_loop L (if i + 1 < sz then r @ '','' else r) (i + 1) sz rest)"

definition SerializeObject :: "libcxx \<Rightarrow> JsonDocument \<Rightarrow> fault + string" where
  "SerializeObject L doc =
     (let members = GetMember doc in
      case SerializeObject_loop L ''{'' 0 (length members) members of
        Inl e \<Rightarrow> Inl e
      | Inr tmp_result \<Rightarrow> Inr (tmp_result @ ''}''))"


section \<open>The rendering that the specification describes\<close>

text \<open>
  The minified text, defined from the words of the specification rather than from the code:
  \<^verbatim>\<open>null\<close>, \<^verbatim>\<open>true\<close> or \<^verbatim>\<open>false\<close>, the raw text of a number as it is, the decimal
  rendering of a typed number, a string between double quotes with nothing escaped, the
  elements of an array between brackets and the \<^verbatim>\<open>"key":value\<close> pairs of an object between
  braces, joined by single commas in the order of the container.
\<close>

fun join :: "string \<Rightarrow> string list \<Rightarrow> string" where
  "join sep [] = []"
| "join sep [x] = x"
| "join sep (x # y # ys) = x @ sep @ join sep (y # ys)"

definition typed_text :: "libcxx \<Rightarrow> number_union \<Rightarrow> string" where
  "typed_text L u =
     (case u of
        no_value \<Rightarrow> []
      | int_value x \<Rightarrow> to_string_int (sint x)
      | uint_value x \<Rightarrow> to_string_int (uint x)
      | int64t_value x \<Rightarrow> to_string_int (sint x)
      | uint64t_value x \<Rightarrow> to_string_int (uint x)
      | double_value x \<Rightarrow> to_string_double L x
      | float_value x \<Rightarrow> to_string_float L x
      | int16_value x \<Rightarrow> to_string_int (sint x))"

fun render :: "libcxx \<Rightarrow> JsonValue \<Rightarrow> string" where
  "render L (JsonValue t nt u ns b s arr obj) =
     (case t of
        Null \<Rightarrow> ''null''
      | Boolean \<Rightarrow> (if b = Some True then ''true'' else ''false'')
      | Number \<Rightarrow> (if nt = Some Num_String then ns else typed_text L u)
      | String \<Rightarrow> [CHR 0x22] @ s @ [CHR 0x22]
      | Array \<Rightarrow> ''['' @ join '','' (map (render L) arr) @ '']''
      | Object \<Rightarrow>
          ''{''
          @ join '',''
              (map (\<lambda>m. [CHR 0x22] @ fst m @ [CHR 0x22, CHR '':''] @ render L (snd m)) obj)
          @ ''}'')"


definition render_member :: "libcxx \<Rightarrow> string \<times> JsonValue \<Rightarrow> string" where
  "render_member L m = [CHR 0x22] @ fst m @ [CHR 0x22, CHR '':''] @ render L (snd m)"

definition render_Document :: "libcxx \<Rightarrow> JsonDocument \<Rightarrow> string" where
  "render_Document L doc = ''{'' @ join '','' (map (render_member L) (GetMember doc)) @ ''}''"

text \<open>
  The values that the serializer can read without touching an indeterminate member: a
  Boolean has had \<^verbatim>\<open>_boolean\<close> written, a Number has had \<^verbatim>\<open>_number_type\<close> written and, unless
  that is the raw text kind, the member of the union that belongs to it; the elements of an
  Array and the members of an Object are such values in turn.
\<close>

fun union_holds :: "JsonNumberType \<Rightarrow> number_union \<Rightarrow> bool" where
  "union_holds Num_Int (int_value x) = True"
| "union_holds Num_Uint (uint_value x) = True"
| "union_holds Num_Int64 (int64t_value x) = True"
| "union_holds Num_Uint64 (uint64t_value x) = True"
| "union_holds Num_Double (double_value x) = True"
| "union_holds Num_Float (float_value x) = True"
| "union_holds Num_Int16 (int16_value x) = True"
| "union_holds k u = False"

fun initialised :: "JsonValue \<Rightarrow> bool" where
  "initialised (JsonValue t nt u ns b s arr obj) =
     (case t of
        Null \<Rightarrow> True
      | Boolean \<Rightarrow> b \<noteq> None
      | Number \<Rightarrow> (case nt of None \<Rightarrow> False | Some k \<Rightarrow> k = Num_String \<or> union_holds k u)
      | String \<Rightarrow> True
      | Array \<Rightarrow> list_all initialised arr
      | Object \<Rightarrow> list_all (\<lambda>m. initialised (snd m)) obj)"

section \<open>The raw texts of the numbers in a tree\<close>

text \<open>The raw text of every value below \<open>v\<close>, \<open>v\<close> included, whose type tag is Number.\<close>

fun number_texts :: "JsonValue \<Rightarrow> string list" where
  "number_texts (JsonValue t nt u ns b s arr obj) =
     (if t = Number then [ns] else [])
     @ concat (map number_texts arr)
     @ concat (map (\<lambda>m. number_texts (snd m)) obj)"

definition Document_number_texts :: "JsonDocument \<Rightarrow> string list" where
  "Document_number_texts doc = concat (map (\<lambda>m. number_texts (snd m)) (GetMember doc))"

definition leading_digit :: "string \<Rightarrow> bool" where
  "leading_digit txt = (case txt of [] \<Rightarrow> False | c # _ \<Rightarrow> digit_case c)"

definition digits_first :: "JsonValue \<Rightarrow> bool" where
  "digits_first v = (\<forall>txt \<in> set (number_texts v). leading_digit txt)"

definition Document_digits_first :: "JsonDocument \<Rightarrow> bool" where
  "Document_digits_first doc = (\<forall>txt \<in> set (Document_number_texts doc). leading_digit txt)"

section \<open>Predicates that every step of the parser keeps\<close>

text \<open>
  A predicate on values is kept by the parser when it holds of the values that the parser
  constructs (a default value, an empty Null, Array or Object, a Boolean, a String, a raw text
  Number whose text begins with a digit) and is passed on by \<^verbatim>\<open>AddElement\<close> and
  \<^verbatim>\<open>AddMember\<close>.
\<close>

definition parser_closed :: "(JsonValue \<Rightarrow> bool) \<Rightarrow> bool" where
  "parser_closed P =
     (P JsonValue_default \<and> P (JsonValue_of_type Null) \<and> P (JsonValue_of_type Array) \<and>
      P (JsonValue_of_type Object) \<and>
      (\<forall>b. P (SetBoolean b JsonValue_default)) \<and>
      (\<forall>str. P (SetString str JsonValue_default)) \<and>
      (\<forall>num. leading_digit num \<longrightarrow> P (SetNumberString num (JsonValue_of_type Number))) \<and>
      (\<forall>v val. P v \<longrightarrow> P val \<longrightarrow> P (AddElement v val)) \<and>
      (\<forall>key v val. P v \<longrightarrow> P val \<longrightarrow> P (AddMember key v val)))"

text \<open>An initialised value whose stored elements and members are initialised, whatever its
  type tag is.\<close>

definition readable :: "JsonValue \<Rightarrow> bool" where
  "readable v =
     (initialised v \<and> list_all initialised (GetArray v)
      \<and> list_all (\<lambda>m. initialised (snd m)) (GetObject v))"

section \<open>The value model: setters and getters\<close>

lemma map_of_map_assign: "map_of (map_assign key v m) = (map_of m)(key \<mapsto> v)"
  by (induction m) (auto simp: fun_upd_twist)

lemma set_map_assign: "set (map_assign key v m) \<subseteq> insert (key, v) (set m)"
  by (induction m) (auto split: if_splits)

lemma AddMember_last_write_wins:
  "map_of (GetObject (AddMember key v obj)) = (map_of (GetObject obj))(key \<mapsto> v)"
  by (cases obj) (simp add: map_of_map_assign)

lemma doc_AddMember_last_write_wins:
  "map_of (GetMember (doc_AddMember key v doc)) = (map_of (GetMember doc))(key \<mapsto> v)"
  by (cases doc) (simp add: map_of_map_assign)

text \<open>
  Claim C10. \<^verbatim>\<open>SetNumberString\<close> writes the numeric subkind (raw text) and the stored number
  text and nothing else: the type tag and every other member keep their values. The typed
  numeric setters \<^verbatim>\<open>SetInt\<close>, \<^verbatim>\<open>SetUint\<close>, \<^verbatim>\<open>SetInt64\<close>, \<^verbatim>\<open>SetUint64\<close>, \<^verbatim>\<open>SetDouble\<close>,
  \<^verbatim>\<open>SetFloat\<close> and \<^verbatim>\<open>SetInt16\<close> set the tag to Number. So a default-constructed value on
  which only \<^verbatim>\<open>SetNumberString\<close> has been called still has type Null.
\<close>

theorem SetNumberString_keeps_type_tag:
  "GetType (SetNumberString x v) = GetType v \<and>
   number_type (SetNumberString x v) = Some Num_String \<and>
   GetNumberString (SetNumberString x v) = x \<and>
   num_union (SetNumberString x v) = num_union v \<and>
   boolean (SetNumberString x v) = boolean v \<and>
   GetString (SetNumberString x v) = GetString v \<and>
   GetArray (SetNumberString x v) = GetArray v \<and>
   GetObject (SetNumberString x v) = GetObject v \<and>
   GetType (SetInt i v) = Number \<and>
   GetType (SetUint i v) = Number \<and>
   GetType (SetInt64 l v) = Number \<and>
   GetType (SetUint64 l v) = Number \<and>
   GetType (SetDouble l v) = Number \<and>
   GetType (SetFloat i v) = Number \<and>
   GetType (SetInt16 h v) = Number \<and>
   GetType (SetNumberString x JsonValue_default) = Null"
  by (cases v) (simp add: JsonValue_default_def JsonValue_of_type_def)

text \<open>The three conversions that the specification lists under numeric fidelity.\<close>

lemma GetInt_raw_42: "GetInt (SetNumberString ''42'' (JsonValue_of_type Number)) = Inr 42"
  by code_simp

lemma GetUint64_raw_max:
  "GetUint64 (SetNumberString ''18446744073709551615'' (JsonValue_of_type Number))
     = Inr 18446744073709551615"
  by code_simp

lemma GetInt_raw_overflow:
  "GetInt (SetNumberString ''18446744073709551615'' (JsonValue_of_type Number))
     = Inl out_of_range"
  by code_simp

lemma GetInt_raw_not_numeric:
  "GetInt (SetNumberString ''abc'' (JsonValue_of_type Number)) = Inl invalid_argument"
  by code_simp

text \<open>
  Claim C3 says that every numeric getter on a raw text number converts the text and fails,
  never truncating, when the text is out of the range of the getter's type. \<^verbatim>\<open>GetInt16\<close>
  converts with \<^verbatim>\<open>std::stoi\<close>, which checks the range of \<^verbatim>\<open>int\<close>, and returns the result
  as a \<^verbatim>\<open>short\<close>: the raw text \<^verbatim>\<open>70000\<close> is outside the range of a signed 16 bit integer,
  and the getter returns 4464, which is 70000 modulo 65536, and no error.
\<close>

theorem GetInt16_truncates_raw_text:
  "GetInt16 (SetNumberString ''70000'' (JsonValue_of_type Number)) = Inr 4464"
  by code_simp

text \<open>\<^verbatim>\<open>GetUint\<close> has the same narrowing after \<^verbatim>\<open>std::stoul\<close>.\<close>

lemma GetUint_truncates_raw_text:
  "GetUint (SetNumberString ''4294967296'' (JsonValue_of_type Number)) = Inr 0"
  by code_simp

section \<open>The parser: more fuel does not change a result\<close>

text \<open>
  A run that has ended with some fuel, in a value or in a fault, ends in the same way with
  any larger fuel. So a result stated below for one amount of fuel is the result of the run,
  and \<open>None\<close> for every amount of fuel is a run that does not end.
\<close>

lemma ParseJson_loop_at_end:
  "it = it_end \<Longrightarrow> ParseJson_loop n s it_end it isKey key_word doc = Some (Inr doc)"
  by (cases n) simp_all

lemma Parse_functions_fuel_mono:
  "ParseValue n s it_end it = Some r \<Longrightarrow> n \<le> m \<Longrightarrow> ParseValue m s it_end it = Some r"
  "ParseArray n s it_end it = Some r \<Longrightarrow> n \<le> m \<Longrightarrow> ParseArray m s it_end it = Some r"
  "ParseArray_loop n s it_end it val = Some r \<Longrightarrow> n \<le> m \<Longrightarrow>
     ParseArray_loop m s it_end it val = Some r"
  "ParseObject n s it_end it = Some r \<Longrightarrow> n \<le> m \<Longrightarrow> ParseObject m s it_end it = Some r"
  "ParseObject_loop n s it_end it refValue = Some r \<Longrightarrow> n \<le> m \<Longrightarrow>
     ParseObject_loop m s it_end it refValue = Some r"
proof (induction n s it_end it and n s it_end it and n s it_end it val and n s it_end it
    and n s it_end it refValue
    arbitrary: r m and r m and r m and r m and r m
    rule: ParseValue_ParseArray_ParseArray_loop_ParseObject_ParseObject_loop.induct)
  case (1 s it_end it)
  then show ?case by simp
next
  case (2 n s it_end it)
  from "2.prems"(2) obtain k where m: "m = Suc k" and k: "n \<le> k" by (cases m) auto
  show ?case
  proof (cases "it = it_end")
    case True
    with "2.prems"(1) show ?thesis by (simp add: m)
  next
    case False
    show ?thesis
    proof (cases "deref s it")
      case (Inl e)
      with "2.prems"(1) False show ?thesis by (simp add: m)
    next
      case (Inr c)
      consider (c_null) "c = CHR ''n''"
        | (c_bool) "c \<noteq> CHR ''n''" "c = CHR ''t'' \<or> c = CHR ''f''"
        | (c_string) "c \<noteq> CHR ''n''" "\<not> (c = CHR ''t'' \<or> c = CHR ''f'')" "c = CHR 0x22"
        | (c_array) "c \<noteq> CHR ''n''" "\<not> (c = CHR ''t'' \<or> c = CHR ''f'')" "c \<noteq> CHR 0x22"
          "c = CHR ''[''"
        | (c_object) "c \<noteq> CHR ''n''" "\<not> (c = CHR ''t'' \<or> c = CHR ''f'')" "c \<noteq> CHR 0x22"
          "c \<noteq> CHR ''[''" "c = CHR ''{''"
        | (c_digit) "c \<noteq> CHR ''n''" "\<not> (c = CHR ''t'' \<or> c = CHR ''f'')" "c \<noteq> CHR 0x22"
          "c \<noteq> CHR ''[''" "c \<noteq> CHR ''{''" "digit_case c"
        | (c_other) "c \<noteq> CHR ''n''" "\<not> (c = CHR ''t'' \<or> c = CHR ''f'')" "c \<noteq> CHR 0x22"
          "c \<noteq> CHR ''[''" "c \<noteq> CHR ''{''" "\<not> digit_case c"
        by blast
      then show ?thesis
      proof cases
        case c_array
        with "2.prems"(1) False Inr have "ParseArray n s it_end it = Some r" by simp
        from "2.IH"(1) [OF False Inr c_array this k] c_array False Inr show ?thesis
          by (simp add: m)
      next
        case c_object
        with "2.prems"(1) False Inr have "ParseObject n s it_end it = Some r" by simp
        from "2.IH"(2) [OF False Inr c_object this k] c_object False Inr show ?thesis
          by (simp add: m)
      next
        case c_other
        with "2.prems"(1) False Inr have "ParseValue n s it_end (it + 1) = Some r" by simp
        from "2.IH"(3) [OF False Inr c_other this k] c_other False Inr show ?thesis
          by (simp add: m)
      next
        case c_null
        with "2.prems"(1) False Inr show ?thesis by (simp add: m)
      next
        case c_bool
        with "2.prems"(1) False Inr show ?thesis by (simp add: m)
      next
        case c_string
        with "2.prems"(1) False Inr show ?thesis by (simp add: m)
      next
        case c_digit
        with "2.prems"(1) False Inr show ?thesis by (simp add: m)
      qed
    qed
  qed
next
  case (3 s it_end it)
  then show ?case by simp
next
  case (4 n s it_end it)
  from "4.prems"(2) obtain k where m: "m = Suc k" and k: "n \<le> k" by (cases m) auto
  from "4.prems"(1) have "ParseArray_loop n s it_end (it + 1) (JsonValue_of_type Array) = Some r"
    by simp
  from "4.IH" [OF this k] show ?case by (simp add: m)
next
  case (5 s it_end it val)
  then show ?case by simp
next
  case (6 n s it_end it val)
  from "6.prems"(2) obtain k where m: "m = Suc k" and k: "n \<le> k" by (cases m) auto
  show ?case
  proof (cases "deref s it")
    case (Inl e)
    with "6.prems"(1) show ?thesis by (simp add: m)
  next
    case (Inr c)
    show ?thesis
    proof (cases "c = CHR '']''")
      case True
      with "6.prems"(1) Inr show ?thesis by (simp add: m)
    next
      case False
      show ?thesis
      proof (cases "c = CHR '','' \<or> c = CHR '' '' \<or> c = CHR 0x0A")
        case True
        with "6.prems"(1) Inr False
        have "ParseArray_loop n s it_end (it + 1) val = Some r" by simp
        from "6.IH"(1) [OF Inr False True this k] Inr False True show ?thesis
          by (simp add: m)
      next
        case sep: False
        from "6.prems"(1) Inr False sep obtain x where pv: "ParseValue n s it_end it = Some x"
          by (auto split: option.splits)
        note pv' = "6.IH"(2) [OF Inr False sep pv k]
        show ?thesis
        proof (cases x)
          case (Inl e)
          from "6.prems"(1) Inr False sep pv Inl have r: "r = Inl e" by simp
          from pv' Inl have "ParseValue k s it_end it = Some (Inl e)" by simp
          with Inr False sep show ?thesis by (simp add: m r)
        next
          case xr: (Inr p)
          obtain v it1 where p: "p = (v, it1)" by (cases p)
          from "6.prems"(1) Inr False sep pv xr p
          have "ParseArray_loop n s it_end it1 (AddElement v val) = Some r" by simp
          from "6.IH"(3) [OF Inr False sep pv xr p [symmetric] this k] Inr False sep pv' xr p
          show ?thesis by (simp add: m)
        qed
      qed
    qed
  qed
next
  case (7 s it_end it)
  then show ?case by simp
next
  case (8 n s it_end it)
  from "8.prems"(2) obtain k where m: "m = Suc k" and k: "n \<le> k" by (cases m) auto
  from "8.prems"(1) obtain x where
    loop: "ParseObject_loop n s it_end (it + 1) (JsonValue_of_type Object) = Some x"
    by (auto split: option.splits)
  from "8.IH" [OF loop k] "8.prems"(1) loop show ?case by (simp add: m)
next
  case (9 s it_end it refValue)
  then show ?case by simp
next
  case (10 n s it_end it refValue)
  from "10.prems"(2) obtain k where m: "m = Suc k" and k: "n \<le> k" by (cases m) auto
  show ?case
  proof (cases "deref s it")
    case (Inl e)
    with "10.prems"(1) show ?thesis by (simp add: m)
  next
    case (Inr c)
    show ?thesis
    proof (cases "c = CHR ''}''")
      case True
      with "10.prems"(1) Inr show ?thesis by (simp add: m)
    next
      case False
      show ?thesis
      proof (cases "c = CHR '','' \<or> c = CHR '' '' \<or> c = CHR 0x0A")
        case True
        with "10.prems"(1) Inr False
        have "ParseObject_loop n s it_end (it + 1) refValue = Some r" by simp
        from "10.IH"(1) [OF Inr False True this k] Inr False True show ?thesis
          by (simp add: m)
      next
        case sep: False
        show ?thesis
        proof (cases "ParseString s it")
          case (Inl e)
          with "10.prems"(1) Inr False sep show ?thesis by (simp add: m)
        next
          case ps: (Inr q)
          obtain key it1 where q: "q = (key, it1)" by (cases q)
          from "10.prems"(1) Inr False sep ps q obtain x where
            pv: "ParseValue n s it_end it1 = Some x"
            by (auto split: option.splits)
          note pv' = "10.IH"(2) [OF Inr False sep ps q [symmetric] pv k]
          show ?thesis
          proof (cases x)
            case (Inl e)
            from "10.prems"(1) Inr False sep ps q pv Inl have r: "r = Inl e" by simp
            from pv' Inl have "ParseValue k s it_end it1 = Some (Inl e)" by simp
            with Inr False sep ps q show ?thesis by (simp add: m r)
          next
            case xr: (Inr p)
            obtain v it2 where p: "p = (v, it2)" by (cases p)
            from "10.prems"(1) Inr False sep ps q pv xr p
            have "ParseObject_loop n s it_end it2 (AddMember key v refValue) = Some r" by simp
            from "10.IH"(3) [OF Inr False sep ps q [symmetric] pv xr p [symmetric] this k]
              Inr False sep ps q pv' xr p
            show ?thesis by (simp add: m)
          qed
        qed
      qed
    qed
  qed
qed

lemma ParseJson_loop_fuel_mono:
  "ParseJson_loop n s it_end it isKey key_word doc = Some r \<Longrightarrow> n \<le> m \<Longrightarrow>
   ParseJson_loop m s it_end it isKey key_word doc = Some r"
proof (induction n s it_end it isKey key_word doc arbitrary: r m rule: ParseJson_loop.induct)
  case (1 s it_end it isKey key_word doc)
  then have "it = it_end" and "r = Inr doc" by (simp_all split: if_splits)
  then show ?case by (simp add: ParseJson_loop_at_end)
next
  case (2 n s it_end it isKey key_word doc)
  from "2.prems"(2) obtain k where m: "m = Suc k" and k: "n \<le> k" by (cases m) auto
  show ?case
  proof (cases "it = it_end")
    case True
    with "2.prems"(1) show ?thesis by (simp add: m)
  next
    case False
    show ?thesis
    proof (cases "deref s it")
      case (Inl e)
      with "2.prems"(1) False show ?thesis by (simp add: m)
    next
      case (Inr c)
      consider (c_null) "c = CHR ''n''"
        | (c_bool) "c \<noteq> CHR ''n''" "c = CHR ''t'' \<or> c = CHR ''f''"
        | (c_string) "c \<noteq> CHR ''n''" "\<not> (c = CHR ''t'' \<or> c = CHR ''f'')" "c = CHR 0x22"
        | (c_array) "c \<noteq> CHR ''n''" "\<not> (c = CHR ''t'' \<or> c = CHR ''f'')" "c \<noteq> CHR 0x22"
          "c = CHR ''[''"
        | (c_object) "c \<noteq> CHR ''n''" "\<not> (c = CHR ''t'' \<or> c = CHR ''f'')" "c \<noteq> CHR 0x22"
          "c \<noteq> CHR ''[''" "c = CHR ''{''"
        | (c_digit) "c \<noteq> CHR ''n''" "\<not> (c = CHR ''t'' \<or> c = CHR ''f'')" "c \<noteq> CHR 0x22"
          "c \<noteq> CHR ''[''" "c \<noteq> CHR ''{''" "digit_case c"
        | (c_other) "c \<noteq> CHR ''n''" "\<not> (c = CHR ''t'' \<or> c = CHR ''f'')" "c \<noteq> CHR 0x22"
          "c \<noteq> CHR ''[''" "c \<noteq> CHR ''{''" "\<not> digit_case c"
        by blast
      then show ?thesis
      proof cases
        case c_null
        with "2.prems"(1) False Inr
        have "ParseJson_loop n s it_end (it + 1) False key_word
                (doc_AddMember key_word (JsonValue_of_type Null) doc) = Some r"
          by simp
        from "2.IH"(1) [OF False Inr c_null this k] False Inr c_null show ?thesis
          by (simp add: m)
      next
        case c_bool
        show ?thesis
        proof (cases "ParseBoolean s it")
          case (Inl e)
          with "2.prems"(1) False Inr c_bool show ?thesis by (simp add: m)
        next
          case pb: (Inr p)
          obtain b it1 where p: "p = (b, it1)" by (cases p)
          from "2.prems"(1) False Inr c_bool pb p
          have "ParseJson_loop n s it_end (it1 + 1) False key_word
                  (doc_AddMember key_word (SetBoolean b JsonValue_default) doc) = Some r"
            by simp
          from "2.IH"(2) [OF False Inr c_bool pb p [symmetric] this k] False Inr c_bool pb p
          show ?thesis by (simp add: m)
        qed
      next
        case c_string
        show ?thesis
        proof (cases "ParseString s it")
          case (Inl e)
          with "2.prems"(1) False Inr c_string show ?thesis by (cases isKey) (simp_all add: m)
        next
          case ps: (Inr p)
          obtain str it1 where p: "p = (str, it1)" by (cases p)
          show ?thesis
          proof (cases "isKey = False")
            case True
            with "2.prems"(1) False Inr c_string ps p
            have "ParseJson_loop n s it_end (it1 + 1) True str doc = Some r" by simp
            from "2.IH"(3) [OF False Inr c_string True ps p [symmetric] this k]
              False Inr c_string True ps p
            show ?thesis by (simp add: m)
          next
            case isKey: False
            with "2.prems"(1) False Inr c_string ps p
            have "ParseJson_loop n s it_end (it1 + 1) False key_word
                    (doc_AddMember key_word (SetString str JsonValue_default) doc) = Some r"
              by simp
            from "2.IH"(4) [OF False Inr c_string isKey ps p [symmetric] this k]
              False Inr c_string isKey ps p
            show ?thesis by (simp add: m)
          qed
        qed
      next
        case c_array
        from "2.prems"(1) False Inr c_array obtain x where pa: "ParseArray n s it_end it = Some x"
          by (auto split: option.splits)
        note pa' = Parse_functions_fuel_mono(2) [OF pa k]
        show ?thesis
        proof (cases x)
          case (Inl e)
          from "2.prems"(1) False Inr c_array pa Inl have r: "r = Inl e" by simp
          from pa' Inl have "ParseArray k s it_end it = Some (Inl e)" by simp
          with False Inr c_array show ?thesis by (simp add: m r)
        next
          case xr: (Inr p)
          obtain v it1 where p: "p = (v, it1)" by (cases p)
          from "2.prems"(1) False Inr c_array pa xr p
          have "ParseJson_loop n s it_end (it1 + 1) False key_word
                  (doc_AddMember key_word v doc) = Some r"
            by simp
          from "2.IH"(5) [OF False Inr c_array pa xr p [symmetric] this k]
            False Inr c_array pa' xr p
          show ?thesis by (simp add: m)
        qed
      next
        case c_object
        from "2.prems"(1) False Inr c_object obtain x where po: "ParseObject n s it_end it = Some x"
          by (auto split: option.splits)
        note po' = Parse_functions_fuel_mono(4) [OF po k]
        show ?thesis
        proof (cases x)
          case (Inl e)
          from "2.prems"(1) False Inr c_object po Inl have r: "r = Inl e" by simp
          from po' Inl have "ParseObject k s it_end it = Some (Inl e)" by simp
          with False Inr c_object show ?thesis by (simp add: m r)
        next
          case xr: (Inr p)
          obtain v it1 where p: "p = (v, it1)" by (cases p)
          from "2.prems"(1) False Inr c_object po xr p
          have "ParseJson_loop n s it_end (it1 + 1) False key_word
                  (doc_AddMember key_word v doc) = Some r"
            by simp
          from "2.IH"(6) [OF False Inr c_object po xr p [symmetric] this k]
            False Inr c_object po' xr p
          show ?thesis by (simp add: m)
        qed
      next
        case c_digit
        show ?thesis
        proof (cases "ParseNumber s it_end it")
          case (Inl e)
          with "2.prems"(1) False Inr c_digit show ?thesis by (simp add: m)
        next
          case pn: (Inr p)
          obtain num it1 where p: "p = (num, it1)" by (cases p)
          from "2.prems"(1) False Inr c_digit pn p
          have "ParseJson_loop n s it_end (it1 + 1) False key_word
                  (doc_AddMember key_word (SetNumberString num (JsonValue_of_type Number)) doc)
                = Some r"
            by simp
          from "2.IH"(7) [OF False Inr c_digit pn p [symmetric] this k] False Inr c_digit pn p
          show ?thesis by (simp add: m)
        qed
      next
        case c_other
        with "2.prems"(1) False Inr
        have "ParseJson_loop n s it_end (it + 1) isKey key_word doc = Some r" by simp
        from "2.IH"(8) [OF False Inr c_other this k] False Inr c_other show ?thesis
          by (simp add: m)
      qed
    qed
  qed
qed

lemma Parse_fuel_mono: "Parse n json_str = Some r \<Longrightarrow> n \<le> m \<Longrightarrow> Parse m json_str = Some r"
  by (auto simp: Parse_def ParseJson_def split: if_splits sum.splits
      intro: ParseJson_loop_fuel_mono)

lemma Parse_result_unique:
  assumes "Parse n json_str = Some r" and "Parse m json_str = Some r'"
  shows "r = r'"
proof -
  from Parse_fuel_mono [OF assms(1), of "max n m"] Parse_fuel_mono [OF assms(2), of "max n m"]
  show ?thesis by simp
qed

section \<open>The parser: results on given inputs\<close>

text \<open>
  Claim C4. \<^verbatim>\<open>Parse\<close> of the empty text returns an empty Document, \<^verbatim>\<open>Parse\<close> of \<^verbatim>\<open>{}\<close>
  returns a Document with no member, and \<^verbatim>\<open>Parse\<close> of a text whose first character is not
  \<^verbatim>\<open>{\<close> returns an empty Document; no fault is raised and no fuel is needed.
\<close>

theorem Parse_empty_Document:
  "Parse n [] = Some (Inr (JsonDocument [])) \<and>
   Parse n ''{}'' = Some (Inr (JsonDocument [])) \<and>
   (\<forall>c cs. c \<noteq> CHR ''{'' \<longrightarrow> Parse n (c # cs) = Some (Inr (JsonDocument [])))"
  by (simp add: Parse_def ParseJson_def deref_def ParseJson_loop_at_end)

theorem Parse_empty_Document_witness:
  "Parse 0 [] = Some (Inr (JsonDocument [])) \<and>
   Parse 0 ''{}'' = Some (Inr (JsonDocument [])) \<and>
   Parse 0 ''[1,2]'' = Some (Inr (JsonDocument []))"
  using Parse_empty_Document [of 0] by simp

text \<open>
  Claim C6. With the cursor on \<^verbatim>\<open>t\<close>, \<^verbatim>\<open>ParseBoolean\<close> returns true and moves the cursor by
  exactly 4; on \<^verbatim>\<open>f\<close> it returns false and moves the cursor by exactly 5. \<^verbatim>\<open>ParseValue\<close>
  at a value position returns that Boolean and that cursor, and the loop of \<^verbatim>\<open>ParseJson\<close>
  stores that Boolean under the pending key and goes on behind that cursor (its own
  \<^verbatim>\<open>++_it\<close> comes on top). No other character of the text is inspected: two texts that
  agree at the cursor give the same result, whatever follows.
\<close>

theorem ParseBoolean_fixed_skip:
  assumes "it < length s" and "it \<noteq> it_end"
  shows "(s ! it = CHR ''t'' \<longrightarrow>
            ParseBoolean s it = Inr (True, it + 4) \<and>
            ParseValue (Suc n) s it_end it =
              Some (Inr (SetBoolean True JsonValue_default, it + 4)) \<and>
            ParseJson_loop (Suc n) s it_end it isKey key_word doc =
              ParseJson_loop n s it_end (it + 4 + 1) False key_word
                (doc_AddMember key_word (SetBoolean True JsonValue_default) doc)) \<and>
         (s ! it = CHR ''f'' \<longrightarrow>
            ParseBoolean s it = Inr (False, it + 5) \<and>
            ParseValue (Suc n) s it_end it =
              Some (Inr (SetBoolean False JsonValue_default, it + 5)) \<and>
            ParseJson_loop (Suc n) s it_end it isKey key_word doc =
              ParseJson_loop n s it_end (it + 5 + 1) False key_word
                (doc_AddMember key_word (SetBoolean False JsonValue_default) doc)) \<and>
         (\<forall>s'. it < length s' \<and> s' ! it = s ! it \<longrightarrow> ParseBoolean s' it = ParseBoolean s it)"
  using assms by (simp add: ParseBoolean_def deref_def)

theorem ParseBoolean_fixed_skip_witness:
  "ParseBoolean ''{\"a\":tru}'' 5 = Inr (True, 9) \<and>
   ParseValue (Suc 0) ''{\"a\":tru}'' 8 5 = Some (Inr (SetBoolean True JsonValue_default, 9)) \<and>
   ParseJson_loop (Suc 0) ''{\"a\":tru}'' 8 5 True ''a'' (JsonDocument []) =
     ParseJson_loop 0 ''{\"a\":tru}'' 8 10 False ''a''
       (doc_AddMember ''a'' (SetBoolean True JsonValue_default) (JsonDocument [])) \<and>
   ParseBoolean ''[fals]'' 1 = Inr (False, 6) \<and>
   ParseValue (Suc 0) ''[fals]'' 5 1 = Some (Inr (SetBoolean False JsonValue_default, 6))"
  using ParseBoolean_fixed_skip [of 5 "''{\"a\":tru}''" 8 0 True "''a''" "JsonDocument []"]
        ParseBoolean_fixed_skip [of 1 "''[fals]''" 5 0]
  by simp

text \<open>
  What \<^verbatim>\<open>ParseNumber\<close> does when a delimiter follows inside the text: it returns the
  characters from the cursor up to the first \<^verbatim>\<open>}\<close>, or the first \<^verbatim>\<open>,\<close> that is not at
  \<^verbatim>\<open>_it_end\<close>, with the white space removed and nothing else looked at, and leaves the cursor
  on that delimiter.
\<close>

lemma ParseNumber_loop_up_to_delimiter:
  assumes "it \<le> j" and "j < length s"
    and "s ! j = CHR ''}'' \<or> (s ! j = CHR '','' \<and> j \<noteq> it_end)"
    and "\<forall>i. it \<le> i \<and> i < j \<longrightarrow> s ! i \<noteq> CHR ''}'' \<and> (s ! i \<noteq> CHR '','' \<or> i = it_end)"
  shows "ParseNumber_loop s it_end it cache = Inr (cache @ take (j - it) (drop it s), j)"
  using assms
proof (induction "j - it" arbitrary: it cache)
  case 0
  then have "it = j" by simp
  with "0.prems"(2,3) show ?case
    by (subst ParseNumber_loop.simps) auto
next
  case (Suc k)
  then have lt: "it < j" and k: "k = j - (it + 1)" by simp_all
  with Suc.prems have here: "s ! it \<noteq> CHR ''}''" "s ! it \<noteq> CHR '','' \<or> it = it_end"
    and len: "it < length s"
    by auto
  have rest: "\<forall>i. it + 1 \<le> i \<and> i < j \<longrightarrow> s ! i \<noteq> CHR ''}'' \<and> (s ! i \<noteq> CHR '','' \<or> i = it_end)"
    using Suc.prems(4) by auto
  have "ParseNumber_loop s it_end it cache = ParseNumber_loop s it_end (it + 1) (cache @ [s ! it])"
    using here len by (subst ParseNumber_loop.simps) auto
  also have "\<dots> = Inr ((cache @ [s ! it]) @ take (j - (it + 1)) (drop (it + 1) s), j)"
    using lt by (intro Suc.hyps(1) [OF k _ Suc.prems(2,3) rest]) simp
  also have "(cache @ [s ! it]) @ take (j - (it + 1)) (drop (it + 1) s)
               = cache @ take (j - it) (drop it s)"
  proof -
    have "drop it s = s ! it # drop (it + 1) s"
      using len by (simp add: Cons_nth_drop_Suc)
    moreover have "j - it = Suc (j - (it + 1))" using lt by simp
    ultimately show ?thesis by simp
  qed
  finally show ?case .
qed

lemma ParseNumber_up_to_delimiter:
  assumes "it \<le> j" and "j < length s"
    and "s ! j = CHR ''}'' \<or> (s ! j = CHR '','' \<and> j \<noteq> it_end)"
    and "\<forall>i. it \<le> i \<and> i < j \<longrightarrow> s ! i \<noteq> CHR ''}'' \<and> (s ! i \<noteq> CHR '','' \<or> i = it_end)"
  shows "ParseNumber s it_end it = Inr (filter (\<lambda>c. \<not> isspace c) (take (j - it) (drop it s)), j)"
  using ParseNumber_loop_up_to_delimiter [OF assms, of "[]"] by (simp add: ParseNumber_def)

text \<open>
  Claim C5 says that the accumulation of a number stops at \<^verbatim>\<open>,\<close> or \<^verbatim>\<open>}\<close> and also when the
  cursor reaches the end of the working range. The loop condition of \<^verbatim>\<open>ParseNumber\<close> is
  \<^verbatim>\<open>*_it != ',' || (_it == _it_end) == true\<close>: at the end of the range the loop goes on. On
  the text \<^verbatim>\<open>{"a":12\<close> the range ends at index 6; the cursor leaves it and is dereferenced at
  index 7, the length of the text.
\<close>

theorem ParseNumber_passes_end_of_range:
  "ParseNumber ''{\"a\":12'' 6 5 = Inl (ReadPastEnd 7) \<and>
   Parse 10 ''{\"a\":12'' = Some (Inl (ReadPastEnd 7))"
  by code_simp

text \<open>
  Claim C2 says that \<^verbatim>\<open>Parse\<close> reports a parse error on \<^verbatim>\<open>{"a":tru}\<close> and never moves the
  cursor past the end of the text. The parser has no error result. On this text
  \<^verbatim>\<open>ParseBoolean\<close> moves the cursor from index 5 to index 9, the length of the text, the loop
  of \<^verbatim>\<open>ParseJson\<close> increments it, and it is dereferenced at index 10.
\<close>

theorem Parse_tru_counterexample:
  "Parse 10 ''{\"a\":tru}'' = Some (Inl (ReadPastEnd 10))"
  by code_simp

text \<open>
  Claim C2, as amended. \<^verbatim>\<open>Parse\<close> has no parse error result, and a member value that starts
  with \<^verbatim>\<open>t\<close> is taken as Boolean true whatever its next characters are: a text made of
  \<^verbatim>\<open>{"a":t\<close>, any four characters and \<^verbatim>\<open>}\<close> parses to the Document in which \<^verbatim>\<open>a\<close> is
  Boolean true.
\<close>

theorem Parse_literal_by_leading_char:
  "Parse (Suc (Suc n)) (''{\"a\":t'' @ [c1, c2, c3, c4] @ ''}'') =
     Some (Inr (JsonDocument [(''a'', SetBoolean True JsonValue_default)]))"
  by (simp add: Parse_def ParseJson_def deref_def ParseString_def ParseString_loop.simps
      ParseBoolean_def ParseJson_loop_at_end)

text \<open>
  Claim C7 says that \<^verbatim>\<open>Parse\<close> of \<^verbatim>\<open>{"a":1,"a":2}\<close> yields a Document in which \<^verbatim>\<open>a\<close> is the
  number 2. \<^verbatim>\<open>AddMember\<close> does replace the value of a key that is present
  (\<open>doc_AddMember_last_write_wins\<close>), but the run does not return: \<^verbatim>\<open>ParseNumber\<close> stops on
  the closing brace at index 12, which is \<^verbatim>\<open>_it_end\<close>, the loop of \<^verbatim>\<open>ParseJson\<close> increments
  the cursor past it, and the cursor is dereferenced at index 13, the length of the text.
\<close>

theorem Parse_duplicate_key_reads_past_end:
  "Parse 10 ''{\"a\":1,\"a\":2}'' = Some (Inl (ReadPastEnd 13))"
  by code_simp

section \<open>What holds of every value that the parser builds\<close>

lemma digit_case_chars:
  "digit_case c \<Longrightarrow> \<not> isspace c \<and> c \<noteq> CHR '','' \<and> c \<noteq> CHR ''}'' \<and> c \<noteq> CHR ''-''"
  by (auto simp: digit_case_def isspace_def)

lemma ParseNumber_loop_extends:
  "ParseNumber_loop s it_end it cache = Inr (cache', it') \<Longrightarrow> \<exists>r. cache' = cache @ r"
proof (induction s it_end it cache rule: ParseNumber_loop.induct)
  case (1 s it_end it cache)
  show ?case
  proof (cases "it < length s \<and> (s ! it \<noteq> CHR '','' \<or> it = it_end) \<and> s ! it \<noteq> CHR ''}''")
    case True
    with "1.prems" have "ParseNumber_loop s it_end (it + 1) (cache @ [s ! it]) = Inr (cache', it')"
      by (subst (asm) ParseNumber_loop.simps) (simp split: if_splits)
    with "1.IH" True obtain r where "cache' = (cache @ [s ! it]) @ r" by blast
    then show ?thesis by simp
  next
    case False
    with "1.prems" have "cache' = cache"
      by (subst (asm) ParseNumber_loop.simps) (auto split: if_splits)
    then show ?thesis by simp
  qed
qed

lemma ParseNumber_leading_digit:
  assumes "it < length s" and "digit_case (s ! it)" and "ParseNumber s it_end it = Inr (num, it')"
  shows "leading_digit num"
proof -
  from assms(3) obtain cache where
    loop: "ParseNumber_loop s it_end it [] = Inr (cache, it')"
    and num: "num = filter (\<lambda>c. \<not> isspace c) cache"
    by (auto simp: ParseNumber_def split: sum.splits)
  from digit_case_chars [OF assms(2)] assms(1) loop
  have "ParseNumber_loop s it_end (it + 1) ([] @ [s ! it]) = Inr (cache, it')"
    by (subst (asm) ParseNumber_loop.simps) simp
  from ParseNumber_loop_extends [OF this] obtain r where "cache = s ! it # r" by auto
  with num digit_case_chars [OF assms(2)] assms(2) show ?thesis
    by (simp add: leading_digit_def)
qed

lemma number_texts_simps:
  "number_texts JsonValue_default = []"
  "t \<noteq> Number \<Longrightarrow> number_texts (JsonValue_of_type t) = []"
  "number_texts (SetBoolean b JsonValue_default) = []"
  "number_texts (SetString str JsonValue_default) = []"
  "number_texts (SetNumberString num (JsonValue_of_type Number)) = [num]"
  by (simp_all add: JsonValue_default_def JsonValue_of_type_def)

lemma number_texts_AddElement:
  "set (number_texts (AddElement v val)) \<subseteq> set (number_texts v) \<union> set (number_texts val)"
  by (cases val) auto

lemma number_texts_AddMember:
  "set (number_texts (AddMember key v val)) \<subseteq> set (number_texts v) \<union> set (number_texts val)"
proof (cases val)
  case (JsonValue t nt u ns b s arr obj)
  show ?thesis using set_map_assign [of key v obj] unfolding JsonValue by fastforce
qed

lemma number_texts_doc_AddMember:
  "set (Document_number_texts (doc_AddMember key v doc))
     \<subseteq> set (number_texts v) \<union> set (Document_number_texts doc)"
proof (cases doc)
  case (JsonDocument m)
  show ?thesis using set_map_assign [of key v m] unfolding JsonDocument Document_number_texts_def
    by fastforce
qed

lemma digits_first_simps:
  "digits_first JsonValue_default"
  "digits_first (JsonValue_of_type Null)"
  "digits_first (JsonValue_of_type Array)"
  "digits_first (JsonValue_of_type Object)"
  "digits_first (SetBoolean b JsonValue_default)"
  "digits_first (SetString str JsonValue_default)"
  "digits_first (SetNumberString num (JsonValue_of_type Number)) = leading_digit num"
  by (simp_all add: digits_first_def number_texts_simps)

lemma digits_first_AddElement:
  "digits_first v \<Longrightarrow> digits_first val \<Longrightarrow> digits_first (AddElement v val)"
  using number_texts_AddElement [of v val] by (auto simp: digits_first_def)

lemma digits_first_AddMember:
  "digits_first v \<Longrightarrow> digits_first val \<Longrightarrow> digits_first (AddMember key v val)"
  using number_texts_AddMember [of key v val] by (auto simp: digits_first_def)

lemma deref_Inr: "deref s it = Inr c \<Longrightarrow> it < length s \<and> s ! it = c"
  by (auto simp: deref_def split: if_splits)

lemma parser_closedD:
  assumes "parser_closed P"
  shows "P JsonValue_default" and "P (JsonValue_of_type Null)" and "P (JsonValue_of_type Array)"
    and "P (JsonValue_of_type Object)"
    and "P (SetBoolean b JsonValue_default)"
    and "P (SetString str JsonValue_default)"
    and "leading_digit num \<Longrightarrow> P (SetNumberString num (JsonValue_of_type Number))"
    and "P v \<Longrightarrow> P val \<Longrightarrow> P (AddElement v val)"
    and "P v \<Longrightarrow> P val \<Longrightarrow> P (AddMember key v val)"
  using assms by (simp_all add: parser_closed_def)

lemma members_doc_AddMember:
  "P v \<Longrightarrow> list_all (\<lambda>m. P (snd m)) (GetMember doc) \<Longrightarrow>
   list_all (\<lambda>m. P (snd m)) (GetMember (doc_AddMember key v doc))"
proof (cases doc)
  case (JsonDocument m)
  assume "P v" and "list_all (\<lambda>m. P (snd m)) (GetMember doc)"
  with set_map_assign [of key v m] show ?thesis
    unfolding JsonDocument by (fastforce simp: list_all_iff)
qed

lemma Parse_functions_invariant:
  assumes P: "parser_closed P"
  shows
  "ParseValue n s it_end it = Some (Inr (v, it')) \<Longrightarrow> P v"
  "ParseArray n s it_end it = Some (Inr (v, it')) \<Longrightarrow> P v"
  "ParseArray_loop n s it_end it val = Some (Inr (v, it')) \<Longrightarrow> P val \<Longrightarrow>
     P v"
  "ParseObject n s it_end it = Some (Inr (v, it')) \<Longrightarrow> P v"
  "ParseObject_loop n s it_end it refValue = Some (Inr (v, it')) \<Longrightarrow> P refValue \<Longrightarrow>
     P v"
proof (induction n s it_end it and n s it_end it and n s it_end it val and n s it_end it
    and n s it_end it refValue
    arbitrary: v it' and v it' and v it' and v it' and v it'
    rule: ParseValue_ParseArray_ParseArray_loop_ParseObject_ParseObject_loop.induct)
  case (1 s it_end it)
  then show ?case by simp
next
  case (2 n s it_end it)
  show ?case
  proof (cases "it = it_end")
    case True
    with "2.prems" show ?thesis by (simp add: parser_closedD [OF P])
  next
    case False
    with "2.prems" obtain c where c: "deref s it = Inr c"
      by (cases "deref s it") simp_all
    note d = deref_Inr [OF c]
    consider (c_null) "c = CHR ''n''"
      | (c_bool) "c \<noteq> CHR ''n''" "c = CHR ''t'' \<or> c = CHR ''f''"
      | (c_string) "c \<noteq> CHR ''n''" "\<not> (c = CHR ''t'' \<or> c = CHR ''f'')" "c = CHR 0x22"
      | (c_array) "c \<noteq> CHR ''n''" "\<not> (c = CHR ''t'' \<or> c = CHR ''f'')" "c \<noteq> CHR 0x22" "c = CHR ''[''"
      | (c_object) "c \<noteq> CHR ''n''" "\<not> (c = CHR ''t'' \<or> c = CHR ''f'')" "c \<noteq> CHR 0x22" "c \<noteq> CHR ''[''"
          "c = CHR ''{''"
      | (c_digit) "c \<noteq> CHR ''n''" "\<not> (c = CHR ''t'' \<or> c = CHR ''f'')" "c \<noteq> CHR 0x22" "c \<noteq> CHR ''[''"
          "c \<noteq> CHR ''{''" "digit_case c"
      | (c_other) "c \<noteq> CHR ''n''" "\<not> (c = CHR ''t'' \<or> c = CHR ''f'')" "c \<noteq> CHR 0x22"
          "c \<noteq> CHR ''[''" "c \<noteq> CHR ''{''" "\<not> digit_case c"
      by blast
    then show ?thesis
    proof cases
      case c_null
      with "2.prems" False c show ?thesis by (auto simp: parser_closedD [OF P])
    next
      case c_bool
      with "2.prems" False c show ?thesis
        by (auto simp: parser_closedD [OF P] split: sum.splits)
    next
      case c_string
      with "2.prems" False c show ?thesis
        by (auto simp: parser_closedD [OF P] split: sum.splits)
    next
      case c_array
      with "2.prems" False c have "ParseArray n s it_end it = Some (Inr (v, it'))" by simp
      from "2.IH"(1) [OF False c c_array this] show ?thesis .
    next
      case c_object
      with "2.prems" False c have "ParseObject n s it_end it = Some (Inr (v, it'))" by simp
      from "2.IH"(2) [OF False c c_object this] show ?thesis .
    next
      case c_digit
      with "2.prems" False c obtain num where
        "ParseNumber s it_end it = Inr (num, it')"
        "v = SetNumberString num (JsonValue_of_type Number)"
        by (auto split: sum.splits)
      with ParseNumber_leading_digit [of it s it_end num it'] d c_digit show ?thesis
        by (simp add: parser_closedD(7) [OF P])
    next
      case c_other
      with "2.prems" False c have "ParseValue n s it_end (it + 1) = Some (Inr (v, it'))" by simp
      from "2.IH"(3) [OF False c c_other this] show ?thesis .
    qed
  qed
next
  case (3 s it_end it)
  then show ?case by simp
next
  case (4 n s it_end it)
  from "4.prems" have "ParseArray_loop n s it_end (it + 1) (JsonValue_of_type Array) = Some (Inr (v, it'))"
    by simp
  from "4.IH" [OF this] show ?case by (simp add: parser_closedD [OF P])
next
  case (5 s it_end it val)
  then show ?case by simp
next
  case (6 n s it_end it val)
  from "6.prems"(1) obtain c where c: "deref s it = Inr c"
    by (cases "deref s it") simp_all
  show ?case
  proof (cases "c = CHR '']''")
    case True
    with "6.prems" c show ?thesis by simp
  next
    case False
    show ?thesis
    proof (cases "c = CHR '','' \<or> c = CHR '' '' \<or> c = CHR 0x0A")
      case True
      with "6.prems"(1) c False
      have "ParseArray_loop n s it_end (it + 1) val = Some (Inr (v, it'))" by simp
      from "6.IH"(1) [OF c False True this "6.prems"(2)] show ?thesis .
    next
      case sep: False
      with "6.prems"(1) c False obtain x it1 where
        pv: "ParseValue n s it_end it = Some (Inr (x, it1))"
        and loop: "ParseArray_loop n s it_end it1 (AddElement x val) = Some (Inr (v, it'))"
        by (auto split: option.splits sum.splits)
      from "6.IH"(2) [OF c False sep pv] have "P x" .
      with "6.prems"(2) have "P (AddElement x val)" by (rule parser_closedD(8) [OF P, rotated])
      from "6.IH"(3) [OF c False sep pv refl refl loop this] show ?thesis .
    qed
  qed
next
  case (7 s it_end it)
  then show ?case by simp
next
  case (8 n s it_end it)
  from "8.prems" obtain it1 where
    "ParseObject_loop n s it_end (it + 1) (JsonValue_of_type Object) = Some (Inr (v, it1))"
    by (auto split: option.splits sum.splits)
  from "8.IH" [OF this] show ?case by (simp add: parser_closedD [OF P])
next
  case (9 s it_end it refValue)
  then show ?case by simp
next
  case (10 n s it_end it refValue)
  from "10.prems"(1) obtain c where c: "deref s it = Inr c"
    by (cases "deref s it") simp_all
  show ?case
  proof (cases "c = CHR ''}''")
    case True
    with "10.prems" c show ?thesis by simp
  next
    case False
    show ?thesis
    proof (cases "c = CHR '','' \<or> c = CHR '' '' \<or> c = CHR 0x0A")
      case True
      with "10.prems"(1) c False
      have "ParseObject_loop n s it_end (it + 1) refValue = Some (Inr (v, it'))" by simp
      from "10.IH"(1) [OF c False True this "10.prems"(2)] show ?thesis .
    next
      case sep: False
      with "10.prems"(1) c False obtain key it1 x it2 where
        ps: "ParseString s it = Inr (key, it1)"
        and pv: "ParseValue n s it_end it1 = Some (Inr (x, it2))"
        and loop: "ParseObject_loop n s it_end it2 (AddMember key x refValue) = Some (Inr (v, it'))"
        by (auto split: option.splits sum.splits)
      from "10.IH"(2) [OF c False sep ps refl pv] have "P x" .
      with "10.prems"(2) have "P (AddMember key x refValue)"
        by (rule parser_closedD(9) [OF P, rotated])
      from "10.IH"(3) [OF c False sep ps refl pv refl refl loop this] show ?thesis .
    qed
  qed
qed

lemma ParseJson_loop_invariant:
  assumes P: "parser_closed P"
  shows "ParseJson_loop n s it_end it isKey key_word doc = Some (Inr d) \<Longrightarrow>
   list_all (\<lambda>m. P (snd m)) (GetMember doc) \<Longrightarrow> list_all (\<lambda>m. P (snd m)) (GetMember d)"
proof (induction n s it_end it isKey key_word doc rule: ParseJson_loop.induct)
  case (1 s it_end it isKey key_word doc)
  then show ?case by (simp split: if_splits)
next
  case (2 n s it_end it isKey key_word doc)
  note add = members_doc_AddMember [OF _ "2.prems"(2)]
  show ?case
  proof (cases "it = it_end")
    case True
    with "2.prems" show ?thesis by simp
  next
    case False
    with "2.prems"(1) obtain c where c: "deref s it = Inr c"
      by (cases "deref s it") simp_all
    note d = deref_Inr [OF c]
    consider (c_null) "c = CHR ''n''"
      | (c_bool) "c \<noteq> CHR ''n''" "c = CHR ''t'' \<or> c = CHR ''f''"
      | (c_string) "c \<noteq> CHR ''n''" "\<not> (c = CHR ''t'' \<or> c = CHR ''f'')" "c = CHR 0x22"
      | (c_array) "c \<noteq> CHR ''n''" "\<not> (c = CHR ''t'' \<or> c = CHR ''f'')" "c \<noteq> CHR 0x22"
          "c = CHR ''[''"
      | (c_object) "c \<noteq> CHR ''n''" "\<not> (c = CHR ''t'' \<or> c = CHR ''f'')" "c \<noteq> CHR 0x22"
          "c \<noteq> CHR ''[''" "c = CHR ''{''"
      | (c_digit) "c \<noteq> CHR ''n''" "\<not> (c = CHR ''t'' \<or> c = CHR ''f'')" "c \<noteq> CHR 0x22"
          "c \<noteq> CHR ''[''" "c \<noteq> CHR ''{''" "digit_case c"
      | (c_other) "c \<noteq> CHR ''n''" "\<not> (c = CHR ''t'' \<or> c = CHR ''f'')" "c \<noteq> CHR 0x22"
          "c \<noteq> CHR ''[''" "c \<noteq> CHR ''{''" "\<not> digit_case c"
      by blast
    then show ?thesis
    proof cases
      case c_null
      with "2.prems"(1) False c
      have "ParseJson_loop n s it_end (it + 1) False key_word
              (doc_AddMember key_word (JsonValue_of_type Null) doc) = Some (Inr d)"
        by simp
      from "2.IH"(1) [OF False c c_null this add] show ?thesis
        by (simp add: parser_closedD [OF P])
    next
      case c_bool
      with "2.prems"(1) False c obtain b it1 where
        pb: "ParseBoolean s it = Inr (b, it1)"
        and loop: "ParseJson_loop n s it_end (it1 + 1) False key_word
              (doc_AddMember key_word (SetBoolean b JsonValue_default) doc) = Some (Inr d)"
        by (auto split: sum.splits)
      from "2.IH"(2) [OF False c c_bool pb refl loop add] show ?thesis
        by (simp add: parser_closedD [OF P])
    next
      case c_string
      show ?thesis
      proof (cases "isKey = False")
        case True
        with c_string "2.prems"(1) False c obtain str it1 where
          ps: "ParseString s it = Inr (str, it1)"
          and loop: "ParseJson_loop n s it_end (it1 + 1) True str doc = Some (Inr d)"
          by (auto split: sum.splits)
        from "2.IH"(3) [OF False c c_string True ps refl loop "2.prems"(2)] show ?thesis .
      next
        case isKey: False
        with c_string "2.prems"(1) False c obtain str it1 where
          ps: "ParseString s it = Inr (str, it1)"
          and loop: "ParseJson_loop n s it_end (it1 + 1) False key_word
              (doc_AddMember key_word (SetString str JsonValue_default) doc) = Some (Inr d)"
          by (auto split: sum.splits)
        from "2.IH"(4) [OF False c c_string isKey ps refl loop add] show ?thesis
          by (simp add: parser_closedD [OF P])
      qed
    next
      case c_array
      with "2.prems"(1) False c obtain v it1 where
        pa: "ParseArray n s it_end it = Some (Inr (v, it1))"
        and loop: "ParseJson_loop n s it_end (it1 + 1) False key_word
              (doc_AddMember key_word v doc) = Some (Inr d)"
        by (auto split: option.splits sum.splits)
      from "2.IH"(5) [OF False c c_array pa refl refl loop add]
        Parse_functions_invariant(2) [OF P pa] show ?thesis by simp
    next
      case c_object
      with "2.prems"(1) False c obtain v it1 where
        po: "ParseObject n s it_end it = Some (Inr (v, it1))"
        and loop: "ParseJson_loop n s it_end (it1 + 1) False key_word
              (doc_AddMember key_word v doc) = Some (Inr d)"
        by (auto split: option.splits sum.splits)
      from "2.IH"(6) [OF False c c_object po refl refl loop add]
        Parse_functions_invariant(4) [OF P po] show ?thesis by simp
    next
      case c_digit
      with "2.prems"(1) False c obtain num it1 where
        pn: "ParseNumber s it_end it = Inr (num, it1)"
        and loop: "ParseJson_loop n s it_end (it1 + 1) False key_word
              (doc_AddMember key_word (SetNumberString num (JsonValue_of_type Number)) doc)
              = Some (Inr d)"
        by (auto split: sum.splits)
      from ParseNumber_leading_digit [OF _ _ pn] d c_digit have "leading_digit num" by simp
      with "2.IH"(7) [OF False c c_digit pn refl loop add] show ?thesis
        by (simp add: parser_closedD(7) [OF P])
    next
      case c_other
      with "2.prems"(1) False c
      have "ParseJson_loop n s it_end (it + 1) isKey key_word doc = Some (Inr d)" by simp
      from "2.IH"(8) [OF False c c_other this "2.prems"(2)] show ?thesis .
    qed
  qed
qed


lemma Parse_invariant:
  assumes "parser_closed P" and "Parse n json_str = Some (Inr d)"
  shows "list_all (\<lambda>m. P (snd m)) (GetMember d)"
proof (cases "json_str \<noteq> [] \<and> json_str ! 0 = CHR ''{''")
  case True
  with assms(2)
  have "ParseJson_loop n json_str (length json_str - 1) (0 + 1) False [] (JsonDocument [])
          = Some (Inr d)"
    by (simp add: Parse_def ParseJson_def deref_def)
  from ParseJson_loop_invariant [OF assms(1) this] show ?thesis by simp
next
  case False
  with assms(2) have "d = JsonDocument []"
    by (auto simp: Parse_def ParseJson_def deref_def split: if_splits)
  then show ?thesis by simp
qed

lemma parser_closed_digits_first: "parser_closed digits_first"
  unfolding parser_closed_def
  by (simp add: digits_first_simps digits_first_AddElement digits_first_AddMember)

lemma parser_closed_readable: "parser_closed readable"
  unfolding parser_closed_def
proof (intro conjI allI impI)
  fix v val assume "readable v" and "readable val"
  then show "readable (AddElement v val)"
    by (cases val) (simp add: readable_def)
next
  fix key v val assume v: "readable v" and val: "readable val"
  show "readable (AddMember key v val)"
  proof (cases val)
    case (JsonValue t nt u ns b s arr obj)
    with v val set_map_assign [of key v obj] show ?thesis
      by (fastforce simp: readable_def list_all_iff)
  qed
qed (simp_all add: readable_def JsonValue_default_def JsonValue_of_type_def)

lemma Parse_result_initialised:
  assumes "Parse n json_str = Some (Inr d)"
  shows "list_all (\<lambda>m. initialised (snd m)) (GetMember d)"
  using Parse_invariant [OF parser_closed_readable assms]
  by (simp add: list_all_iff readable_def)

lemma Parse_result_digits_first:
  assumes "Parse n json_str = Some (Inr d)"
  shows "Document_digits_first d"
  using Parse_invariant [OF parser_closed_digits_first assms]
  by (auto simp: list_all_iff Document_digits_first_def Document_number_texts_def digits_first_def)

text \<open>
  Claim C9 says that the raw text of a parsed number never contains a minus sign. The
  accumulation of \<^verbatim>\<open>ParseNumber\<close> takes every character up to \<^verbatim>\<open>,\<close> or \<^verbatim>\<open>}\<close>: for the member
  value \<^verbatim>\<open>-1e-5\<close> the leading \<^verbatim>\<open>-\<close> is skipped and the raw text is \<^verbatim>\<open>1e-5\<close>, which contains
  one.
\<close>

theorem Parse_minus_in_raw_text_counterexample:
  "Parse 20 ''{\"a\":-1e-5,\"b\":null}'' =
     Some (Inr (JsonDocument
       [(''a'', SetNumberString ''1e-5'' (JsonValue_of_type Number)),
        (''b'', JsonValue_of_type Null)])) \<and>
   CHR ''-'' \<in> set (GetNumberString (SetNumberString ''1e-5'' (JsonValue_of_type Number)))"
  by code_simp

text \<open>
  Claim C9, as amended. A \<^verbatim>\<open>-\<close> at a dispatch position falls to the default case of the
  switch and is skipped, in \<^verbatim>\<open>ParseJson\<close> as in \<^verbatim>\<open>ParseValue\<close>; a number is accumulated
  from a digit on. So the raw text of every Number in a Document that \<^verbatim>\<open>Parse\<close> returns,
  at any depth, begins with a digit and never with a minus sign: \<^verbatim>\<open>Parse\<close> produces no
  number with a leading minus sign. A \<^verbatim>\<open>-\<close> after the first digit is kept in the text.
\<close>

theorem Parse_number_texts_begin_with_digit:
  "(it < length s \<and> it \<noteq> it_end \<and> s ! it = CHR ''-'' \<longrightarrow>
      ParseJson_loop (Suc n) s it_end it isKey key_word doc
        = ParseJson_loop n s it_end (it + 1) isKey key_word doc \<and>
      ParseValue (Suc n) s it_end it = ParseValue n s it_end (it + 1)) \<and>
   (Parse m json_str = Some (Inr d) \<longrightarrow>
      (\<forall>txt \<in> set (Document_number_texts d). leading_digit txt \<and> hd txt \<noteq> CHR ''-''))"
proof (intro conjI impI)
  assume "it < length s \<and> it \<noteq> it_end \<and> s ! it = CHR ''-''"
  then show "ParseJson_loop (Suc n) s it_end it isKey key_word doc
        = ParseJson_loop n s it_end (it + 1) isKey key_word doc"
    and "ParseValue (Suc n) s it_end it = ParseValue n s it_end (it + 1)"
    by (simp_all add: deref_def digit_case_def)
next
  assume p: "Parse m json_str = Some (Inr d)"
  have "Document_digits_first d"
    by (rule Parse_result_digits_first [OF p])
  moreover have "leading_digit raw \<Longrightarrow> hd raw \<noteq> CHR ''-''" for raw
    using digit_case_chars [of "hd raw"] by (cases raw) (auto simp: leading_digit_def)
  ultimately show "\<forall>txt \<in> set (Document_number_texts d). leading_digit txt \<and> hd txt \<noteq> CHR ''-''"
    by (auto simp: Document_digits_first_def)
qed

theorem Parse_number_texts_begin_with_digit_witness:
  "ParseJson_loop (Suc 3) ''{\"a\":-7 }'' 8 5 False ''a'' (JsonDocument [])
     = ParseJson_loop 3 ''{\"a\":-7 }'' 8 6 False ''a'' (JsonDocument []) \<and>
   ParseValue (Suc 3) ''{\"a\":-7 }'' 8 5 = ParseValue 3 ''{\"a\":-7 }'' 8 6 \<and>
   Parse 20 ''{\"a\":-1e-5,\"b\":null}'' =
     Some (Inr (JsonDocument
       [(''a'', SetNumberString ''1e-5'' (JsonValue_of_type Number)),
        (''b'', JsonValue_of_type Null)])) \<and>
   leading_digit ''1e-5'' \<and> hd ''1e-5'' \<noteq> CHR ''-''"
proof -
  have p: "Parse 20 ''{\"a\":-1e-5,\"b\":null}'' =
     Some (Inr (JsonDocument
       [(''a'', SetNumberString ''1e-5'' (JsonValue_of_type Number)),
        (''b'', JsonValue_of_type Null)]))"
    by code_simp
  have t: "''1e-5'' \<in> set (Document_number_texts (JsonDocument
       [(''a'', SetNumberString ''1e-5'' (JsonValue_of_type Number)),
        (''b'', JsonValue_of_type Null)]))"
    by (simp add: Document_number_texts_def JsonValue_of_type_def)
  from Parse_number_texts_begin_with_digit
    [of 5 "''{\"a\":-7 }''" 8 3 False "''a''" "JsonDocument []" 20 "''{\"a\":-1e-5,\"b\":null}''"
        "JsonDocument
       [(''a'', SetNumberString ''1e-5'' (JsonValue_of_type Number)),
        (''b'', JsonValue_of_type Null)]"]
    p t
  show ?thesis by auto
qed

section \<open>The serializer produces the minified rendering\<close>

lemma join_Cons: "join sep (x # xs) = x @ (if xs = [] then [] else sep @ join sep xs)"
  by (cases xs) simp_all

lemma number_text_render:
  "initialised item \<Longrightarrow> GetType item = Number \<Longrightarrow> number_text L item = Inr (render L item)"
  apply (cases item)
  subgoal for t nt u ns b s arr obj
    apply (cases nt)
     apply simp
    subgoal for k
      by (cases k; cases u)
        (simp_all add: number_text_def GetNumberType_def GetInt_def GetUint_def GetInt64_def
          GetUint64_def GetDouble_def GetFloat_def GetInt16_def typed_text_def)
    done
  done

lemma GetBoolean_render:
  "initialised item \<Longrightarrow> GetType item = Boolean \<Longrightarrow>
   (case GetBoolean item of
      Inl e \<Rightarrow> Inl e
    | Inr v \<Rightarrow> Inr (acc @ (if v then ''true'' else ''false''))) = Inr (acc @ render L item)"
  apply (cases item)
  subgoal for t nt u ns b s arr obj
    by (cases b) (simp_all add: GetBoolean_def)
  done

lemma render_Null: "GetType item = Null \<Longrightarrow> render L item = ''null''"
  by (cases item) simp

lemma render_String:
  "GetType item = String \<Longrightarrow> render L item = [CHR 0x22] @ GetString item @ [CHR 0x22]"
  by (cases item) simp

lemma render_Array:
  "GetType item = Array \<Longrightarrow>
   render L item = ''['' @ join '','' (map (render L) (GetArray item)) @ '']''"
  by (cases item) simp

lemma render_Object:
  "GetType item = Object \<Longrightarrow>
   render L item = ''{'' @ join '','' (map (render_member L) (GetObject item)) @ ''}''"
  by (cases item) (simp add: render_member_def [abs_def])

lemma initialised_Array:
  "initialised item \<Longrightarrow> GetType item = Array \<Longrightarrow> list_all initialised (GetArray item)"
  by (cases item) simp

lemma initialised_Object:
  "initialised item \<Longrightarrow> GetType item = Object \<Longrightarrow>
   list_all (\<lambda>m. initialised (snd m)) (GetObject item)"
  by (cases item) simp

lemma Gen_render:
  "list_all initialised (GetArray v) \<Longrightarrow>
     GenArray L tmp_str v = Inr (tmp_str @ ''['' @ join '','' (map (render L) (GetArray v)) @ '']'')"
  "list_all initialised items \<Longrightarrow> i + length items = sz \<Longrightarrow>
     GenArray_loop L tmp_str i sz items = Inr (tmp_str @ join '','' (map (render L) items))"
  "list_all (\<lambda>m. initialised (snd m)) (GetObject w) \<Longrightarrow>
     GenObject L tmp_str w =
       Inr (tmp_str @ ''{'' @ join '','' (map (render_member L) (GetObject w)) @ ''}'')"
  "list_all (\<lambda>m. initialised (snd m)) members \<Longrightarrow> i + length members = sz \<Longrightarrow>
     GenObject_loop L tmp_str i sz members =
       Inr (tmp_str @ join '','' (map (render_member L) members))"
proof (induction L tmp_str v and L tmp_str i sz items and L tmp_str w and L tmp_str i sz members
    rule: GenArray_GenArray_loop_GenObject_GenObject_loop.induct)
  case (1 L tmp_str t nt u ns b s arr obj)
  then show ?case by (simp add: GenArray.simps)
next
  case (2 L tmp_str i sz)
  then show ?case by simp
next
  case (3 L tmp_str i sz item rest)
  let ?sw = "case GetType item of
           Null \<Rightarrow> Inr (tmp_str @ ''null'')
         | Boolean \<Rightarrow>
             (case GetBoolean item of
                Inl e \<Rightarrow> Inl e
              | Inr v \<Rightarrow> Inr (tmp_str @ (if v then ''true'' else ''false'')))
         | Number \<Rightarrow>
             (case number_text L item of Inl e \<Rightarrow> Inl e | Inr txt \<Rightarrow> Inr (tmp_str @ txt))
         | String \<Rightarrow> Inr (tmp_str @ ([CHR 0x22] @ GetString item @ [CHR 0x22]))
         | Array \<Rightarrow> GenArray L tmp_str item
         | Object \<Rightarrow> GenObject L tmp_str item"
  from "3.prems" have it: "initialised item" and rest: "list_all initialised rest"
    and sz: "(i + 1) + length rest = sz" by simp_all
  have sw: "?sw = Inr (tmp_str @ render L item)"
  proof (cases "GetType item")
    case Null
    then show ?thesis by (simp add: render_Null)
  next
    case Boolean
    with GetBoolean_render [OF it Boolean, of tmp_str L] show ?thesis by simp
  next
    case Number
    with number_text_render [OF it Number, of L] show ?thesis by simp
  next
    case String
    then show ?thesis by (simp add: render_String)
  next
    case Array
    with "3.IH"(1) [OF Array initialised_Array [OF it Array]] show ?thesis
      by (simp add: render_Array)
  next
    case Object
    with "3.IH"(2) [OF Object initialised_Object [OF it Object]] show ?thesis
      by (simp add: render_Object)
  qed
  have "GenArray_loop L tmp_str i sz (item # rest) =
        GenArray_loop L (if i + 1 < sz then (tmp_str @ render L item) @ '','' else tmp_str @ render L item)
          (i + 1) sz rest"
    using sw by simp
  also have "\<dots> = Inr ((if i + 1 < sz then (tmp_str @ render L item) @ '','' else tmp_str @ render L item)
                     @ join '','' (map (render L) rest))"
    by (rule "3.IH"(3) [OF sw rest sz])
  also have "\<dots> = Inr (tmp_str @ join '','' (map (render L) (item # rest)))"
    using sz by (cases rest) (simp_all add: join_Cons)
  finally show ?case .
next
  case (4 L tmp_str t nt u ns b s arr obj)
  then show ?case by (simp add: GenObject.simps)
next
  case (5 L tmp_str i sz)
  then show ?case by simp
next
  case (6 L tmp_str i sz member rest)
  let ?k = "GenKey tmp_str (fst member)"
  let ?item = "snd member"
  let ?sw = "case GetType (snd member) of
           Null \<Rightarrow> Inr (GenKey tmp_str (fst member) @ ''null'')
         | Boolean \<Rightarrow>
             (case GetBoolean (snd member) of
                Inl e \<Rightarrow> Inl e
              | Inr v \<Rightarrow> Inr (GenKey tmp_str (fst member) @ (if v then ''true'' else ''false'')))
         | Number \<Rightarrow>
             (case number_text L (snd member) of
                Inl e \<Rightarrow> Inl e
              | Inr txt \<Rightarrow> Inr (GenKey tmp_str (fst member) @ txt))
         | String \<Rightarrow>
             Inr (GenKey tmp_str (fst member) @ ([CHR 0x22] @ GetString (snd member) @ [CHR 0x22]))
         | Array \<Rightarrow> GenArray L (GenKey tmp_str (fst member)) (snd member)
         | Object \<Rightarrow> GenObject L (GenKey tmp_str (fst member)) (snd member)"
  from "6.prems" have it: "initialised ?item"
    and rest: "list_all (\<lambda>m. initialised (snd m)) rest"
    and sz: "(i + 1) + length rest = sz" by simp_all
  have sw: "?sw = Inr (tmp_str @ render_member L member)"
  proof (cases "GetType ?item")
    case Null
    then show ?thesis by (simp add: render_Null render_member_def GenKey_def)
  next
    case Boolean
    with GetBoolean_render [OF it Boolean, of "GenKey tmp_str (fst member)" L] show ?thesis
      by (simp add: render_member_def GenKey_def)
  next
    case Number
    with number_text_render [OF it Number, of L] show ?thesis
      by (simp add: render_member_def GenKey_def)
  next
    case String
    then show ?thesis by (simp add: render_String render_member_def GenKey_def)
  next
    case Array
    with "6.IH"(1) [OF Array initialised_Array [OF it Array]] show ?thesis
      by (simp add: render_Array render_member_def GenKey_def)
  next
    case Object
    with "6.IH"(2) [OF Object initialised_Object [OF it Object]] show ?thesis
      by (simp add: render_Object render_member_def [of L member] GenKey_def)
  qed
  have "GenObject_loop L tmp_str i sz (member # rest) =
        GenObject_loop L (if i + 1 < sz then (tmp_str @ render_member L member) @ '',''
                          else tmp_str @ render_member L member)
          (i + 1) sz rest"
    using sw by simp
  also have "\<dots> = Inr ((if i + 1 < sz then (tmp_str @ render_member L member) @ '',''
                       else tmp_str @ render_member L member)
                     @ join '','' (map (render_member L) rest))"
    by (rule "6.IH"(3) [OF sw rest sz])
  also have "\<dots> = Inr (tmp_str @ join '','' (map (render_member L) (member # rest)))"
    using sz by (cases rest) (simp_all add: join_Cons)
  finally show ?case .
qed

lemma SerializeObject_loop_render:
  "list_all (\<lambda>m. initialised (snd m)) members \<Longrightarrow> i + length members = sz \<Longrightarrow>
   SerializeObject_loop L tmp_result i sz members =
     Inr (tmp_result @ join '','' (map (render_member L) members))"
proof (induction members arbitrary: tmp_result i)
  case Nil
  then show ?case by simp
next
  case (Cons member rest)
  let ?item = "snd member"
  let ?sw = "case GetType (snd member) of
           Null \<Rightarrow> Inr (GenKey tmp_result (fst member) @ ''null'')
         | Boolean \<Rightarrow>
             (case GetBoolean (snd member) of
                Inl e \<Rightarrow> Inl e
              | Inr v \<Rightarrow>
                  Inr (GenKey tmp_result (fst member) @ (if v then ''true'' else ''false'')))
         | Number \<Rightarrow>
             (case number_text L (snd member) of
                Inl e \<Rightarrow> Inl e
              | Inr txt \<Rightarrow> Inr (GenKey tmp_result (fst member) @ txt))
         | String \<Rightarrow>
             Inr (((GenKey tmp_result (fst member) @ [CHR 0x22]) @ GetString (snd member))
                  @ [CHR 0x22])
         | Array \<Rightarrow> GenArray L (GenKey tmp_result (fst member)) (snd member)
         | Object \<Rightarrow> GenObject L (GenKey tmp_result (fst member)) (snd member)"
  from Cons.prems have it: "initialised ?item"
    and rest: "list_all (\<lambda>m. initialised (snd m)) rest"
    and sz: "(i + 1) + length rest = sz" by simp_all
  have sw: "?sw = Inr (tmp_result @ render_member L member)"
  proof (cases "GetType ?item")
    case Null
    then show ?thesis by (simp add: render_Null render_member_def GenKey_def)
  next
    case Boolean
    with GetBoolean_render [OF it Boolean, of "GenKey tmp_result (fst member)" L] show ?thesis
      by (simp add: render_member_def GenKey_def)
  next
    case Number
    with number_text_render [OF it Number, of L] show ?thesis
      by (simp add: render_member_def GenKey_def)
  next
    case String
    then show ?thesis by (simp add: render_String render_member_def GenKey_def)
  next
    case Array
    with Gen_render(1) [OF initialised_Array [OF it Array]] show ?thesis
      by (simp add: render_Array render_member_def GenKey_def)
  next
    case Object
    with Gen_render(3) [OF initialised_Object [OF it Object]] show ?thesis
      by (simp add: render_Object render_member_def [of L member] GenKey_def)
  qed
  have "SerializeObject_loop L tmp_result i sz (member # rest) =
        SerializeObject_loop L (if i + 1 < sz then (tmp_result @ render_member L member) @ '',''
                          else tmp_result @ render_member L member)
          (i + 1) sz rest"
    using sw by simp
  also have "\<dots> = Inr ((if i + 1 < sz then (tmp_result @ render_member L member) @ '',''
                       else tmp_result @ render_member L member)
                     @ join '','' (map (render_member L) rest))"
    by (rule Cons.IH [OF rest sz])
  also have "\<dots> = Inr (tmp_result @ join '','' (map (render_member L) (member # rest)))"
    using sz by (cases rest) (simp_all add: join_Cons)
  finally show ?case .
qed

text \<open>
  Claim C8. For every Document that the serializer can read (no indeterminate member below
  it; the Documents that \<^verbatim>\<open>Parse\<close> returns are such, by \<open>Parse_result_initialised\<close>),
  \<^verbatim>\<open>SerializeObject\<close> returns exactly the minified rendering: \<^verbatim>\<open>null\<close>, \<^verbatim>\<open>true\<close> or
  \<^verbatim>\<open>false\<close>, the raw text of a number verbatim, a string between double quotes with
  nothing escaped, the elements of an array between brackets in storage order and the
  \<^verbatim>\<open>"key":value\<close> pairs of an object between braces in the iteration order of the member
  map, separated by single commas, with no other character added.
\<close>

theorem SerializeObject_minified:
  assumes "list_all (\<lambda>m. initialised (snd m)) (GetMember doc)"
  shows "SerializeObject L doc = Inr (render_Document L doc)"
  using SerializeObject_loop_render [OF assms, of 0 "length (GetMember doc)" L "''{''"]
  by (simp add: SerializeObject_def render_Document_def)

theorem SerializeObject_minified_witness:
  "SerializeObject
     \<lparr>stod = (\<lambda>_. Inl invalid_argument), stof = (\<lambda>_. Inl invalid_argument),
      to_string_double = (\<lambda>_. []), to_string_float = (\<lambda>_. [])\<rparr>
     (JsonDocument
        [(''a'', AddElement (JsonValue_of_type Null)
                   (AddElement (SetNumberString ''1.50'' (JsonValue_of_type Number))
                      JsonValue_default)),
         (''b'', AddMember ''k'' (SetBoolean True JsonValue_default) (JsonValue_of_type Object)),
         (''i'', SetInt (- 5) JsonValue_default),
         (''s'', SetString ''x y'' JsonValue_default)])
   = Inr ''{\"a\":[1.50,null],\"b\":{\"k\":true},\"i\":-5,\"s\":\"x y\"}''"
  (is "SerializeObject ?L ?doc = Inr ?text")
proof -
  have init: "list_all (\<lambda>m. initialised (snd m)) (GetMember ?doc)"
    by code_simp
  have rendering: "render_Document ?L ?doc = ?text"
    by code_simp
  show ?thesis
    unfolding rendering [symmetric] by (rule SerializeObject_minified [OF init])
qed

text \<open>
  Claim C1 says that parsing the serialization of a Document gives the Document back. The
  Document whose one member \<^verbatim>\<open>a\<close> is the raw text number \<^verbatim>\<open>1\<close> is serialized as
  \<^verbatim>\<open>{"a":1}\<close>, and \<^verbatim>\<open>Parse\<close> of that text does not return: \<^verbatim>\<open>ParseNumber\<close> stops on the
  closing brace at index 6, which is \<^verbatim>\<open>_it_end\<close>, the loop of \<^verbatim>\<open>ParseJson\<close> increments the
  cursor past it, and the cursor is dereferenced at index 7, the length of the text. The
  Document whose one member is the string \<^verbatim>\<open>b\<close> goes the same way: \<^verbatim>\<open>ParseString\<close> leaves
  the cursor on the closing brace of \<^verbatim>\<open>{"a":"b"}\<close>.
\<close>

theorem roundtrip_last_member_reads_past_end:
  "SerializeObject L (JsonDocument [(''a'', SetNumberString ''1'' (JsonValue_of_type Number))])
     = Inr ''{\"a\":1}'' \<and>
   Parse 10 ''{\"a\":1}'' = Some (Inl (ReadPastEnd 7)) \<and>
   SerializeObject L (JsonDocument [(''a'', SetString ''b'' JsonValue_default)])
     = Inr ''{\"a\":\"b\"}'' \<and>
   Parse 10 ''{\"a\":\"b\"}'' = Some (Inl (ReadPastEnd 9))"
  by code_simp

end
